theory Spec2Isabelle
  imports Main "HOL-Library.Product_Lexorder"
begin

section \<open>Python strings\<close>

text \<open>
  A Python \<open>str\<close> is modelled as a \<open>string\<close>, one \<open>char\<close> per code point, for the code
  points below 256. The tables below are those of CPython for that range:
  \<open>str.isspace\<close> (which \<open>str.strip()\<close> and the regular expression class \<open>\s\<close> both use),
  \<open>str.lower\<close>, and the word class \<open>\w\<close>.
\<close>

definition isspace :: "char \<Rightarrow> bool" where
  "isspace c = (c \<in> {CHR 0x09, CHR 0x0A, CHR 0x0B, CHR 0x0C, CHR 0x0D,
                      CHR 0x1C, CHR 0x1D, CHR 0x1E, CHR 0x1F, CHR 0x20,
                      CHR 0x85, CHR 0xA0})"

text \<open>\<open>s.strip()\<close>: leading and trailing whitespace removed.\<close>

definition strip :: "string \<Rightarrow> string" where
  "strip s = rev (dropWhile isspace (rev (dropWhile isspace s)))"

text \<open>\<open>" ".join(xs)\<close>.\<close>

fun join_sp :: "string list \<Rightarrow> string" where
  "join_sp [] = []"
| "join_sp [x] = x"
| "join_sp (x # y # ys) = x @ '' '' @ join_sp (y # ys)"

text \<open>\<open>text[a:b]\<close> for \<open>0 \<le> a\<close> and \<open>0 \<le> b\<close>; empty when \<open>b \<le> a\<close>.\<close>

definition slice :: "string \<Rightarrow> nat \<Rightarrow> nat \<Rightarrow> string" where
  "slice s a b = take (b - a) (drop a s)"

text \<open>
  \<open>text.rfind(" ", start, stop)\<close>: the highest index \<open>i\<close> with \<open>start \<le> i < stop\<close>,
  \<open>i < len(text)\<close> and \<open>text[i] == " "\<close>, or \<open>-1\<close> when there is none.
\<close>

fun rfind_space :: "string \<Rightarrow> nat \<Rightarrow> nat \<Rightarrow> int" where
  "rfind_space s start 0 = - 1"
| "rfind_space s start (Suc i) =
     (if i < start then - 1
      else if i < length s \<and> s ! i = CHR '' '' then int i
      else rfind_space s start i)"

text \<open>\<open>str(n)\<close> for a non-negative integer.\<close>

definition digit_char :: "nat \<Rightarrow> char" where
  "digit_char d = char_of (48 + d)"

function str_nat :: "nat \<Rightarrow> string" where
  "str_nat n = (if n < 10 then [digit_char n] else str_nat (n div 10) @ [digit_char (n mod 10)])"
  by pat_completeness auto
termination
  by (relation "measure (\<lambda>n. n)") auto

section \<open>IngestAgent: the chunker\<close>

text \<open>
  The chunk dictionaries \<open>{"id", "text", "meta": {"source_id", "chunk_index", "page",
  "char_len"}}\<close>. The fields \<open>id\<close> and \<open>text\<close> are written \<open>c_id\<close> and \<open>c_text\<close>.
\<close>

record meta =
  source_id :: string
  chunk_index :: nat
  page :: "nat option"
  char_len :: nat

record chunk =
  c_id :: string
  c_text :: string
  meta :: meta

text \<open>
  The sizes \<open>chunk_size_chars\<close> and \<open>min_chunk_chars\<close> of the agent are natural numbers
  \<open>cs\<close> and \<open>mn\<close> (lengths; negative sizes are not modelled). Each \<open>uuid.uuid4().hex[:8]\<close> is a fresh value from the environment:
  \<open>uu k\<close> is the value drawn for the chunk emitted with index \<open>k\<close> (one draw per emitted
  chunk, in index order).
\<close>

definition mk_chunk :: "(nat \<Rightarrow> string) \<Rightarrow> string \<Rightarrow> nat option \<Rightarrow> nat \<Rightarrow> string \<Rightarrow> chunk" where
  "mk_chunk uu sid pg idx tx =
     \<lparr>c_id = sid @ ''::chunk::'' @ str_nat idx @ ''::'' @ uu idx,
      c_text = tx,
      meta = \<lparr>source_id = sid, chunk_index = idx, page = pg, char_len = length tx\<rparr>\<rparr>"

subsection \<open>\<open>_split_into_sentences\<close>\<close>

definition sentence_end :: "char \<Rightarrow> bool" where
  "sentence_end c = (c = CHR ''.'' \<or> c = CHR ''!'' \<or> c = CHR ''?'')"

text \<open>
  \<open>_SENTENCE_SPLIT_RE.split(s)\<close> for the pattern \<open>(?<=[.!?])\s+\<close>: scanning from the
  left, a separator starts at a whitespace character that follows one of \<open>.!?\<close> and
  runs over all the whitespace after it; the pieces between separators are returned,
  the last one too (it may be empty).
\<close>

function (sequential) re_split :: "string \<Rightarrow> string list" where
  "re_split [] = [[]]"
| "re_split [c] = [[c]]"
| "re_split (c # d # s) =
     (if sentence_end c \<and> isspace d then [c] # re_split (dropWhile isspace s)
      else (case re_split (d # s) of
              [] \<Rightarrow> [[c]]
            | p # ps \<Rightarrow> (c # p) # ps))"
  by pat_completeness auto
termination
  by (relation "measure length") (auto simp: less_Suc_eq_le intro: le_trans [OF length_dropWhile_le])

definition split_into_sentences :: "string \<Rightarrow> string list" where
  "split_into_sentences tx =
     map strip (filter (\<lambda>s. s \<noteq> [] \<and> strip s \<noteq> []) (re_split (strip tx)))"

subsection \<open>\<open>_split_long_text\<close>\<close>

text \<open>
  One iteration of the \<open>while\<close> loop computes the end of the window: the hard end
  \<open>min(start + chunk_size_chars, n)\<close>, moved back to the last space of the window when the
  window stops before the end of the text and that space lies after \<open>start\<close>.
\<close>

definition split_end :: "nat \<Rightarrow> string \<Rightarrow> nat \<Rightarrow> nat" where
  "split_end cs tx start =
     (let n = length tx;
          e = min (start + cs) n
      in if e < n then
           (let last_space = rfind_space tx start e
            in if last_space > int start then nat last_space else e)
         else e)"

text \<open>
  The loop may run forever (it does when the window is empty), so it is a partial
  function: \<open>None\<close> is a run that never returns.
\<close>

partial_function (option) split_loop :: "nat \<Rightarrow> string \<Rightarrow> nat \<Rightarrow> string list \<Rightarrow> string list option" where
  "split_loop cs tx start parts =
     (if start < length tx then
        (let e = split_end cs tx start;
             part = strip (slice tx start e)
         in split_loop cs tx e (if part \<noteq> [] then parts @ [part] else parts))
      else Some parts)"

declare split_loop.simps [code]

definition split_long_text :: "nat \<Rightarrow> string \<Rightarrow> string list option" where
  "split_long_text cs tx =
     (if length tx \<le> cs then Some [tx] else split_loop cs tx 0 [])"

subsection \<open>\<open>_aggregate_sentences_to_chunks\<close>\<close>

text \<open>
  The three places that emit the buffer share the statements
  \<open>text = " ".join(buffer).strip(); if text: chunks.append({...}); idx += 1\<close>
  (the last place does not increment \<open>idx\<close>, which is not read again).
\<close>

definition emit_buffer ::
  "(nat \<Rightarrow> string) \<Rightarrow> string \<Rightarrow> nat option \<Rightarrow> chunk list \<Rightarrow> string list \<Rightarrow> nat \<Rightarrow> chunk list \<times> nat" where
  "emit_buffer uu sid pg chunks buffer idx =
     (let tx = strip (join_sp buffer)
      in if tx \<noteq> [] then (chunks @ [mk_chunk uu sid pg idx tx], Suc idx) else (chunks, idx))"

text \<open>\<open>for part in parts: chunks.append({...}); idx += 1\<close>\<close>

fun emit_parts ::
  "(nat \<Rightarrow> string) \<Rightarrow> string \<Rightarrow> nat option \<Rightarrow> string list \<Rightarrow> chunk list \<Rightarrow> nat \<Rightarrow> chunk list \<times> nat" where
  "emit_parts uu sid pg [] chunks idx = (chunks, idx)"
| "emit_parts uu sid pg (part # parts) chunks idx =
     emit_parts uu sid pg parts (chunks @ [mk_chunk uu sid pg idx part]) (Suc idx)"

text \<open>
  The loop over the sentences, with its variables \<open>chunks\<close>, \<open>buffer\<close>, \<open>buffer_len\<close>
  and \<open>idx\<close>. It does not return when the splitting of a long sentence does not.
\<close>

fun agg_loop ::
  "nat \<Rightarrow> (nat \<Rightarrow> string) \<Rightarrow> string \<Rightarrow> nat option \<Rightarrow> string list \<Rightarrow>
   chunk list \<Rightarrow> string list \<Rightarrow> nat \<Rightarrow> nat \<Rightarrow> (chunk list \<times> string list \<times> nat \<times> nat) option" where
  "agg_loop cs uu sid pg [] chunks buffer buffer_len idx = Some (chunks, buffer, buffer_len, idx)"
| "agg_loop cs uu sid pg (sent # rest) chunks buffer buffer_len idx =
     (let s_len = length sent
      in if s_len > cs then
           (let (chunks1, buffer1, buffer_len1, idx1) =
                  (if buffer \<noteq> [] then
                     (let (ch, i) = emit_buffer uu sid pg chunks buffer idx in (ch, [], 0, i))
                   else (chunks, buffer, buffer_len, idx))
            in case split_long_text cs sent of
                 None \<Rightarrow> None
               | Some parts \<Rightarrow>
                   (let (chunks2, idx2) = emit_parts uu sid pg parts chunks1 idx1
                    in agg_loop cs uu sid pg rest chunks2 buffer1 buffer_len1 idx2))
         else if buffer_len + s_len + 1 \<le> cs then
           agg_loop cs uu sid pg rest chunks (buffer @ [sent]) (buffer_len + (s_len + 1)) idx
         else
           (let (chunks1, idx1) = emit_buffer uu sid pg chunks buffer idx
            in agg_loop cs uu sid pg rest chunks1 [sent] (s_len + 1) idx1))"

text \<open>
  The merge pass. \<open>merged[-1]\<close> is updated in place: its \<open>text\<close> becomes
  \<open>(prev["text"] + " " + c["text"]).strip()\<close> and its \<open>char_len\<close> the length of that, its
  \<open>chunk_index\<close> and \<open>id\<close> stay. (The dictionary is shared with the list \<open>chunks\<close>, at a
  position the loop has already passed.)
\<close>

definition absorb :: "chunk \<Rightarrow> chunk \<Rightarrow> chunk" where
  "absorb prev c =
     (let tx = strip (c_text prev @ '' '' @ c_text c)
      in prev\<lparr>c_text := tx, meta := (meta prev)\<lparr>char_len := length tx\<rparr>\<rparr>)"

fun merge_pass :: "nat \<Rightarrow> nat \<Rightarrow> chunk list \<Rightarrow> chunk list \<Rightarrow> chunk list" where
  "merge_pass cs mn merged [] = merged"
| "merge_pass cs mn merged (c # rest) =
     (if merged \<noteq> [] \<and>
         (let prev = last merged;
              prev_len = char_len (meta prev);
              c_len = char_len (meta c)
          in prev_len < mn \<and> prev_len + 1 + c_len \<le> cs)
      then merge_pass cs mn (butlast merged @ [absorb (last merged) c]) rest
      else merge_pass cs mn (merged @ [c]) rest)"

text \<open>
  The first half of the function (the loop and the emission of the last buffer)
  gives the chunks as emitted; the second half is the merge pass over them.
\<close>

definition emitted_chunks ::
  "nat \<Rightarrow> (nat \<Rightarrow> string) \<Rightarrow> string list \<Rightarrow> string \<Rightarrow> nat option \<Rightarrow> chunk list option" where
  "emitted_chunks cs uu sentences sid pg =
     (case agg_loop cs uu sid pg sentences [] [] 0 0 of
        None \<Rightarrow> None
      | Some (chunks, buffer, buffer_len, idx) \<Rightarrow>
          Some (if buffer \<noteq> [] then fst (emit_buffer uu sid pg chunks buffer idx) else chunks))"

definition aggregate_sentences_to_chunks ::
  "nat \<Rightarrow> nat \<Rightarrow> (nat \<Rightarrow> string) \<Rightarrow> string list \<Rightarrow> string \<Rightarrow> nat option \<Rightarrow> chunk list option" where
  "aggregate_sentences_to_chunks cs mn uu sentences sid pg =
     (case emitted_chunks cs uu sentences sid pg of
        None \<Rightarrow> None
      | Some chunks \<Rightarrow> Some (merge_pass cs mn [] chunks))"

subsection \<open>\<open>process_text\<close>\<close>

text \<open>
  \<open>source_id\<close> is optional; when it is \<open>None\<close> the agent draws \<open>"tx-" + uuid4().hex[:8]\<close>,
  with \<open>src_uu\<close> the value drawn.
\<close>

definition process_text ::
  "nat \<Rightarrow> nat \<Rightarrow> (nat \<Rightarrow> string) \<Rightarrow> string \<Rightarrow> string \<Rightarrow> string option \<Rightarrow> chunk list option" where
  "process_text cs mn uu src_uu tx src =
     (let sid = (case src of None \<Rightarrow> ''txt-'' @ src_uu | Some s \<Rightarrow> s);
          sentences = split_into_sentences tx
      in if sentences = [] then Some [mk_chunk uu sid None 0 tx]
         else aggregate_sentences_to_chunks cs mn uu sentences sid None)"

section \<open>RetrieverAgent: the local text search\<close>

subsection \<open>Strings\<close>

text \<open>\<open>s.lower()\<close> and the word class \<open>\w\<close>, for the code points below 256.\<close>

definition lower_char :: "char \<Rightarrow> char" where
  "lower_char c =
     (let n = (of_char c :: nat)
      in if (65 \<le> n \<and> n \<le> 90) \<or> (192 \<le> n \<and> n \<le> 222 \<and> n \<noteq> 215) then char_of (n + 32) else c)"

definition lower :: "string \<Rightarrow> string" where
  "lower s = map lower_char s"

definition word_char :: "char \<Rightarrow> bool" where
  "word_char c =
     (let n = (of_char c :: nat)
      in (48 \<le> n \<and> n \<le> 57) \<or> (65 \<le> n \<and> n \<le> 90) \<or> n = 95 \<or> (97 \<le> n \<and> n \<le> 122) \<or>
         n = 170 \<or> n = 178 \<or> n = 179 \<or> n = 181 \<or> n = 185 \<or> n = 186 \<or>
         n = 188 \<or> n = 189 \<or> n = 190 \<or>
         (192 \<le> n \<and> n \<le> 214) \<or> (216 \<le> n \<and> n \<le> 246) \<or> (248 \<le> n \<and> n \<le> 255))"

text \<open>
  \<open>re.findall(r"\w+", s)\<close>: the maximal runs of word characters, from left to right;
  \<open>cur\<close> is the run being read.
\<close>

fun words_from :: "string \<Rightarrow> string \<Rightarrow> string list" where
  "words_from cur [] = (if cur = [] then [] else [cur])"
| "words_from cur (c # s) =
     (if word_char c then words_from (cur @ [c]) s
      else (if cur = [] then [] else [cur]) @ words_from [] s)"

definition findall_words :: "string \<Rightarrow> string list" where
  "findall_words s = words_from [] s"

text \<open>
  \<open>s.count(sub)\<close>: the number of non-overlapping occurrences of \<open>sub\<close> in \<open>s\<close>, found
  from left to right; for the empty \<open>sub\<close> it is \<open>len(s) + 1\<close>.
\<close>

function count_sub :: "string \<Rightarrow> string \<Rightarrow> nat" where
  "count_sub s sub =
     (if sub = [] then length s + 1
      else if length s < length sub then 0
      else if take (length sub) s = sub then 1 + count_sub (drop (length sub) s) sub
      else count_sub (tl s) sub)"
  by pat_completeness auto
termination
proof (relation "measure (\<lambda>(s, sub). length s)")
  fix s sub :: string
  assume "sub \<noteq> []" and "\<not> length s < length sub"
  then obtain c rest where "sub = c # rest" and "Suc (length rest) \<le> length s"
    by (cases sub) auto
  then show "((drop (length sub) s, sub), (s, sub)) \<in> measure (\<lambda>(s, sub). length s)"
    and "((tl s, sub), (s, sub)) \<in> measure (\<lambda>(s, sub). length s)"
    by simp_all
qed simp

declare count_sub.simps [simp del]

subsection \<open>The stored chunks and the hits\<close>

text \<open>
  A chunk dictionary as \<open>json.load\<close> returns it from a file of \<open>data/chunks\<close>, read with
  \<open>ch.get("id")\<close>, \<open>ch.get("text")\<close> and \<open>ch.get("meta", {}).get(\<dots>)\<close>: a value is
  \<open>None\<close> when the key is missing or \<open>null\<close>. A file is \<open>None\<close> when opening or loading it
  raises (the loop goes on to the next file). A hit is the dictionary \<open>chunk_obj\<close>.
\<close>

record stored =
  st_id :: "string option"
  st_text :: "string option"
  st_source_id :: "string option"
  st_chunk_index :: "int option"
  st_page :: "int option"

record hit =
  h_text :: "string option"
  h_source_id :: "string option"
  h_chunk_index :: "int option"
  h_page :: "int option"
  h_chunk_id :: "string option"

definition chunk_obj :: "stored \<Rightarrow> hit" where
  "chunk_obj ch =
     \<lparr>h_text = st_text ch, h_source_id = st_source_id ch, h_chunk_index = st_chunk_index ch,
      h_page = st_page ch, h_chunk_id = st_id ch\<rparr>"

subsection \<open>The heap\<close>

text \<open>
  The items of the heap are the tuples \<open>(score, tie, chunk_obj)\<close>. Python compares them
  by \<open>score\<close>, then by \<open>tie\<close>; the ties are all different, so the dictionaries are never
  compared. The module \<open>heapq\<close> is modelled by its contract: the heap holds its items,
  \<open>heap[0]\<close> is the least of them, \<open>heappush\<close> adds an item, \<open>heappushpop\<close> adds an item
  and then removes the least, \<open>nlargest(n, heap)\<close> is the \<open>n\<close> largest items in descending
  order. The model keeps the list of the items in ascending order.
\<close>

type_synonym item = "int \<times> nat \<times> hit"

definition item_key :: "item \<Rightarrow> int \<times> nat" where
  "item_key it = (fst it, fst (snd it))"

definition heappush :: "item list \<Rightarrow> item \<Rightarrow> item list" where
  "heappush heap it = insort_key item_key it heap"

definition heappushpop :: "item list \<Rightarrow> item \<Rightarrow> item list" where
  "heappushpop heap it =
     (case heap of
        [] \<Rightarrow> []
      | least # rest \<Rightarrow> if item_key least < item_key it then insort_key item_key it rest else heap)"

definition nlargest :: "nat \<Rightarrow> item list \<Rightarrow> item list" where
  "nlargest n heap = take n (rev (sort_key item_key heap))"

subsection \<open>\<open>_local_text_search\<close>\<close>

text \<open>The score of one chunk: \<open>text\<close> is the lower-cased text of the chunk.\<close>

definition score_of :: "string \<Rightarrow> string list \<Rightarrow> string \<Rightarrow> int" where
  "score_of q terms text =
     foldl (\<lambda>score t. score + int (count_sub text t)) (0 + int (count_sub text q) * 10) terms"

text \<open>
  The loop over the chunks of one file, with the heap and the next value of
  \<open>tie_counter\<close>; \<open>top_k\<close> is a Python integer.
\<close>

fun scan_chunks ::
  "string \<Rightarrow> string list \<Rightarrow> int \<Rightarrow> stored list \<Rightarrow> item list \<times> nat \<Rightarrow> item list \<times> nat" where
  "scan_chunks q terms top_k [] (heap, tie) = (heap, tie)"
| "scan_chunks q terms top_k (ch # chunks) (heap, tie) =
     (let text = lower (case st_text ch of None \<Rightarrow> [] | Some t \<Rightarrow> t)
      in if text = [] then scan_chunks q terms top_k chunks (heap, tie)
         else
           (let score = score_of q terms text
            in if score \<le> 0 then scan_chunks q terms top_k chunks (heap, tie)
               else
                 (let it = (score, tie, chunk_obj ch)
                  in if int (length heap) < top_k
                     then scan_chunks q terms top_k chunks (heappush heap it, Suc tie)
                     else scan_chunks q terms top_k chunks (heappushpop heap it, Suc tie))))"

text \<open>The loop over the files, in the order in which \<open>glob\<close> lists them.\<close>

fun scan_files ::
  "string \<Rightarrow> string list \<Rightarrow> int \<Rightarrow> stored list option list \<Rightarrow> item list \<times> nat \<Rightarrow> item list \<times> nat" where
  "scan_files q terms top_k [] st = st"
| "scan_files q terms top_k (None # files) st = scan_files q terms top_k files st"
| "scan_files q terms top_k (Some chunks # files) st =
     scan_files q terms top_k files (scan_chunks q terms top_k chunks st)"

text \<open>
  \<open>dir_exists\<close> is \<open>os.path.exists(DATA_DIR)\<close>, \<open>files\<close> the files of the directory.
\<close>

definition local_text_search ::
  "bool \<Rightarrow> stored list option list \<Rightarrow> string \<Rightarrow> int \<Rightarrow> hit list" where
  "local_text_search dir_exists files query top_k =
     (if \<not> dir_exists then []
      else
        (let q = lower (strip query)
         in if q = [] then []
            else
              (let terms = findall_words q;
                   (heap, tie) = scan_files q terms top_k files ([], 0)
               in if heap = [] then []
                  else
                    (let largest = nlargest (length heap) heap
                     in map (\<lambda>t. snd (snd t)) largest))))"

section \<open>Notions of the statements and proofs\<close>

subsection \<open>The parts of a long sentence\<close>

text \<open>
  \<open>split_parts cs tx start\<close> lists the parts that the loop appends from position \<open>start\<close>
  on, as long as it makes progress; for \<open>cs \<ge> 1\<close> this is what the loop returns.
\<close>

function split_parts :: "nat \<Rightarrow> string \<Rightarrow> nat \<Rightarrow> string list" where
  "split_parts cs tx start =
     (if start < length tx \<and> start < split_end cs tx start then
        (let e = split_end cs tx start;
             part = strip (slice tx start e)
         in (if part \<noteq> [] then [part] else []) @ split_parts cs tx e)
      else [])"
  by pat_completeness auto
termination
  by (relation "measure (\<lambda>(cs, tx, start). length tx - start)")
     (auto intro: diff_less_mono2)

declare split_parts.simps [simp del]

subsection \<open>Texts\<close>

text \<open>The characters of a string that are not whitespace, in order.\<close>

definition nonspace :: "string \<Rightarrow> string" where
  "nonspace s = filter (\<lambda>c. \<not> isspace c) s"

text \<open>A string that is not empty and neither starts nor ends with whitespace.\<close>

definition stripped :: "string \<Rightarrow> bool" where
  "stripped s = (s \<noteq> [] \<and> \<not> isspace (hd s) \<and> \<not> isspace (last s))"

text \<open>
  \<open>no_boundary s\<close>: nowhere in \<open>s\<close> does whitespace follow one of \<open>.!?\<close>, so the sentence
  pattern does not match in \<open>s\<close>. \<open>single_sep s\<close>: wherever it matches, the match is a single
  space followed by a character that is not whitespace.
\<close>

fun no_boundary :: "string \<Rightarrow> bool" where
  "no_boundary (c # d # s) = (\<not> (sentence_end c \<and> isspace d) \<and> no_boundary (d # s))"
| "no_boundary _ = True"

fun single_sep :: "string \<Rightarrow> bool" where
  "single_sep (c # d # s) =
     ((sentence_end c \<and> isspace d \<longrightarrow> d = CHR '' '' \<and> s \<noteq> [] \<and> \<not> isspace (hd s)) \<and>
      single_sep (d # s))"
| "single_sep _ = True"

definition normal_text :: "string \<Rightarrow> bool" where
  "normal_text s = (stripped s \<and> single_sep s)"

definition sentence_ok :: "string \<Rightarrow> bool" where
  "sentence_ok s = (stripped s \<and> no_boundary s)"

subsection \<open>Chunks and the states of the aggregation\<close>

text \<open>
  A chunk is well formed for the size \<open>cs\<close> when its text is stripped with single-space
  sentence separators, \<open>char_len\<close> is the length of the text, and that is at most \<open>cs\<close>.
\<close>

definition wf_chunk :: "nat \<Rightarrow> chunk \<Rightarrow> bool" where
  "wf_chunk cs c =
     (normal_text (c_text c) \<and> char_len (meta c) = length (c_text c) \<and> length (c_text c) \<le> cs)"

definition indices :: "chunk list \<Rightarrow> nat list" where
  "indices chunks = map (\<lambda>c. chunk_index (meta c)) chunks"

definition texts :: "chunk list \<Rightarrow> string" where
  "texts chunks = concat (map c_text chunks)"

definition agg_inv :: "nat \<Rightarrow> chunk list \<Rightarrow> string list \<Rightarrow> nat \<Rightarrow> nat \<Rightarrow> bool" where
  "agg_inv cs chunks buffer buffer_len idx =
     (list_all (wf_chunk cs) chunks \<and> indices chunks = [0..<idx] \<and>
      list_all normal_text buffer \<and>
      (if buffer = [] then buffer_len = 0
       else buffer_len = length (join_sp buffer) + 1 \<and> length (join_sp buffer) \<le> cs))"

definition flushed ::
  "(nat \<Rightarrow> string) \<Rightarrow> string \<Rightarrow> nat option \<Rightarrow> chunk list \<Rightarrow> string list \<Rightarrow> nat \<Rightarrow> chunk list \<times> nat" where
  "flushed uu sid pg chunks buffer idx =
     (if buffer \<noteq> [] then emit_buffer uu sid pg chunks buffer idx else (chunks, idx))"

text \<open>The test of the merge pass: the previous chunk absorbs the current one.\<close>

definition absorbs :: "nat \<Rightarrow> nat \<Rightarrow> chunk \<Rightarrow> chunk \<Rightarrow> bool" where
  "absorbs cs mn prev c =
     (char_len (meta prev) < mn \<and> char_len (meta prev) + 1 + char_len (meta c) \<le> cs)"

text \<open>The name under which \<open>process_text\<close> files the chunks.\<close>

definition source_name :: "string \<Rightarrow> string option \<Rightarrow> string" where
  "source_name src_uu src = (case src of None \<Rightarrow> ''txt-'' @ src_uu | Some s \<Rightarrow> s)"

text \<open>
  \<open>cascade_ok cs mn acc ls\<close>: a chunk of length \<open>acc\<close> absorbs chunks of the lengths \<open>ls\<close>
  one after the other: before each absorption the accumulated length is below \<open>mn\<close>,
  and with the separator and the next chunk it stays within \<open>cs\<close>.
  \<open>joined c run\<close> is the chunk \<open>c\<close> after it has absorbed the chunks \<open>run\<close>.
\<close>

fun cascade_ok :: "nat \<Rightarrow> nat \<Rightarrow> nat \<Rightarrow> nat list \<Rightarrow> bool" where
  "cascade_ok cs mn acc [] = True"
| "cascade_ok cs mn acc (l # ls) = (acc < mn \<and> acc + 1 + l \<le> cs \<and> cascade_ok cs mn (acc + 1 + l) ls)"

definition joined :: "chunk \<Rightarrow> chunk list \<Rightarrow> chunk" where
  "joined c run =
     c\<lparr>c_text := join_sp (map c_text (c # run)),
       meta := (meta c)\<lparr>char_len := length (join_sp (map c_text (c # run)))\<rparr>\<rparr>"

subsection \<open>The scan of the corpus\<close>

text \<open>
  The chunks of all readable files, in the order of the scan; the score the scan gives
  a chunk (a chunk without text is skipped, here with the score 0); the items that the
  scan offers to the heap, numbered by the tie counter from \<open>tie\<close> on; and what the scan
  does with an offered item.
\<close>

definition candidates :: "stored list option list \<Rightarrow> stored list" where
  "candidates files = concat (map (\<lambda>f. case f of None \<Rightarrow> [] | Some chunks \<Rightarrow> chunks) files)"

definition cand_text :: "stored \<Rightarrow> string" where
  "cand_text ch = lower (case st_text ch of None \<Rightarrow> [] | Some t \<Rightarrow> t)"

definition cand_score :: "string \<Rightarrow> string list \<Rightarrow> stored \<Rightarrow> int" where
  "cand_score q terms ch = (if cand_text ch = [] then 0 else score_of q terms (cand_text ch))"

fun entries :: "string \<Rightarrow> string list \<Rightarrow> stored list \<Rightarrow> nat \<Rightarrow> item list" where
  "entries q terms [] tie = []"
| "entries q terms (ch # chunks) tie =
     (if 0 < cand_score q terms ch
      then (cand_score q terms ch, tie, chunk_obj ch) # entries q terms chunks (Suc tie)
      else entries q terms chunks tie)"

definition offer :: "int \<Rightarrow> item list \<Rightarrow> item \<Rightarrow> item list" where
  "offer top_k heap it =
     (if int (length heap) < top_k then heappush heap it else heappushpop heap it)"

text \<open>The example chunks of the closed theorems below.\<close>

definition example_chunk :: "string \<Rightarrow> string \<Rightarrow> stored" where
  "example_chunk i t =
     \<lparr>st_id = Some i, st_text = Some t, st_source_id = Some ''doc'',
      st_chunk_index = Some 0, st_page = None\<rparr>"

text \<open>
  The score as the specification words it: ten times the number of occurrences of the
  whole normalised query, plus the number of occurrences of each of its word tokens.
\<close>

definition lexical_score :: "string \<Rightarrow> string \<Rightarrow> int" where
  "lexical_score q text =
     10 * int (count_sub text q) + sum_list (map (\<lambda>t. int (count_sub text t)) (findall_words q))"

section \<open>The long-sentence slicer\<close>

subsection \<open>One iteration\<close>

lemma rfind_space_range:
  "rfind_space s start e = - 1 \<or>
   (int start \<le> rfind_space s start e \<and> rfind_space s start e < int e \<and>
    nat (rfind_space s start e) < length s \<and> s ! nat (rfind_space s start e) = CHR '' '')"
  by (induction s start e rule: rfind_space.induct) auto

lemma rfind_space_empty: "e \<le> start \<Longrightarrow> rfind_space s start e = - 1"
  by (cases e) auto

lemma split_end_le: "split_end cs tx start \<le> length tx"
  using rfind_space_range [of tx start "min (start + cs) (length tx)"]
  by (auto simp: split_end_def Let_def)

lemma split_end_window: "split_end cs tx start \<le> start + cs"
  using rfind_space_range [of tx start "min (start + cs) (length tx)"]
  by (auto simp: split_end_def Let_def)

lemma split_end_progress:
  "1 \<le> cs \<Longrightarrow> start < length tx \<Longrightarrow> start < split_end cs tx start"
  by (auto simp: split_end_def Let_def)

lemma split_end_stuck: "start < length tx \<Longrightarrow> split_end 0 tx start = start"
  by (simp add: split_end_def Let_def rfind_space_empty)

subsection \<open>The whole loop\<close>

lemma split_loop_parts:
  "1 \<le> cs \<Longrightarrow> split_loop cs tx start parts = Some (parts @ split_parts cs tx start)"
proof (induction cs tx start arbitrary: parts rule: split_parts.induct)
  case (1 cs tx start)
  show ?case
  proof (cases "start < length tx")
    case False
    then show ?thesis
      by (subst split_loop.simps, subst split_parts.simps) simp
  next
    case True
    with 1(2) have prog: "start < split_end cs tx start"
      by (simp add: split_end_progress)
    show ?thesis
      using True prog 1(1) [OF _ refl refl] 1(2)
      by (subst split_loop.simps, subst split_parts.simps) (simp add: Let_def)
  qed
qed

lemma split_loop_stuck_aux:
  "split_loop cs tx start parts = Some res \<Longrightarrow> cs = 0 \<longrightarrow> \<not> start < length tx"
proof (rule split_loop.raw_induct [where P = "\<lambda>cs tx start parts res. cs = 0 \<longrightarrow> \<not> start < length tx"])
  fix f cs tx start parts and y :: "string list"
  assume IH: "\<And>cs tx start parts y. f cs tx start parts = Some y \<Longrightarrow> cs = 0 \<longrightarrow> \<not> start < length tx"
    and eq: "(if start < length tx then
        (let e = split_end cs tx start;
             part = strip (slice tx start e)
         in f cs tx e (if part \<noteq> [] then parts @ [part] else parts))
      else Some parts) = Some y"
  show "cs = 0 \<longrightarrow> \<not> start < length tx"
  proof (intro impI notI)
    assume z: "cs = 0" and lt: "start < length tx"
    from eq z lt obtain ps where "f 0 tx start ps = Some y"
      by (simp add: split_end_stuck Let_def)
    from IH [OF this] lt show False by simp
  qed
qed

lemma split_loop_stuck: "start < length tx \<Longrightarrow> split_loop 0 tx start parts = None"
  using split_loop_stuck_aux [of 0 tx start parts] by (cases "split_loop 0 tx start parts") auto

lemma strip_length_le: "length (strip s) \<le> length s"
  unfolding strip_def
  by (metis length_rev le_trans length_dropWhile_le)

lemma slice_strip_window: "length (strip (slice tx start (split_end cs tx start))) \<le> cs"
proof -
  have "length (slice tx start (split_end cs tx start)) \<le> split_end cs tx start - start"
    by (simp add: slice_def)
  also have "\<dots> \<le> cs"
    using split_end_window [of cs tx start] by arith
  finally show ?thesis
    using strip_length_le [of "slice tx start (split_end cs tx start)"] by arith
qed

lemma split_parts_bound: "p \<in> set (split_parts cs tx start) \<Longrightarrow> p \<noteq> [] \<and> length p \<le> cs"
proof (induction cs tx start rule: split_parts.induct)
  case (1 cs tx start)
  from 1(2) show ?case
    using 1(1) [OF _ refl refl] slice_strip_window [of tx start cs]
    by (subst (asm) split_parts.simps) (auto simp: Let_def split: if_splits)
qed

text \<open>
  C10, as amended. With \<open>chunk_size_chars \<ge> 1\<close>, \<open>_split_long_text\<close> returns for every
  string, from every state of its loop; each iteration moves \<open>start\<close> strictly forward and
  not beyond the end of the text; every returned part is at most \<open>chunk_size_chars\<close> long,
  and non-empty when the input is non-empty. With \<open>chunk_size_chars = 0\<close> and a non-empty
  text an iteration leaves \<open>start\<close> where it was, and the call does not return.
\<close>

theorem split_long_text_terminates:
  "(1 \<le> cs \<longrightarrow>
      (\<exists>parts. split_long_text cs tx = Some parts \<and>
          (\<forall>p \<in> set parts. length p \<le> cs) \<and>
          (tx \<noteq> [] \<longrightarrow> (\<forall>p \<in> set parts. p \<noteq> []))) \<and>
      (\<forall>start acc. \<exists>res. split_loop cs tx start acc = Some res) \<and>
      (\<forall>start. start < length tx \<longrightarrow>
          start < split_end cs tx start \<and> split_end cs tx start \<le> length tx)) \<and>
   (tx \<noteq> [] \<longrightarrow>
      split_long_text 0 tx = None \<and>
      (\<forall>start. start < length tx \<longrightarrow> split_end 0 tx start = start))"
proof (intro conjI impI allI)
  assume cs: "1 \<le> cs"
  show "\<exists>parts. split_long_text cs tx = Some parts \<and>
          (\<forall>p \<in> set parts. length p \<le> cs) \<and>
          (tx \<noteq> [] \<longrightarrow> (\<forall>p \<in> set parts. p \<noteq> []))"
  proof (cases "length tx \<le> cs")
    case True
    then show ?thesis by (simp add: split_long_text_def)
  next
    case False
    then have "split_long_text cs tx = Some (split_parts cs tx 0)"
      using cs by (simp add: split_long_text_def split_loop_parts)
    then show ?thesis
      using split_parts_bound [of _ cs tx 0] by auto
  qed
next
  fix start acc
  assume "1 \<le> cs"
  then show "\<exists>res. split_loop cs tx start acc = Some res"
    by (simp add: split_loop_parts)
next
  fix start
  assume "1 \<le> cs" and "start < length tx"
  then show "start < split_end cs tx start"
    by (rule split_end_progress)
next
  fix start
  show "split_end cs tx start \<le> length tx"
    by (rule split_end_le)
next
  assume "tx \<noteq> []"
  then show "split_long_text 0 tx = None"
    by (simp add: split_long_text_def split_loop_stuck)
next
  fix start
  assume "start < length tx"
  then show "split_end 0 tx start = start"
    by (rule split_end_stuck)
qed

theorem split_long_text_terminates_witness:
  "(1::nat) \<le> 3 \<and> ''ab cd'' \<noteq> [] \<and>
   (\<exists>parts. split_long_text 3 ''ab cd'' = Some parts \<and>
       list_all (\<lambda>p. length p \<le> 3 \<and> p \<noteq> []) parts) \<and>
   0 < split_end 3 ''ab cd'' 0 \<and>
   split_long_text 0 ''ab cd'' = None"
  using split_long_text_terminates [of 3 "''ab cd''"] split_long_text_terminates [of 0 "''ab cd''"]
  by (auto simp: list_all_iff)

text \<open>
  C10 as stated fails on the empty string: the guard \<open>len(text) <= chunk_size_chars\<close>
  returns the input as the only part, and that part is empty.
\<close>

theorem split_long_text_empty_part: "split_long_text 1 [] = Some [[]]"
  by (simp add: split_long_text_def)

section \<open>Texts of chunks\<close>

lemma isspace_space [simp]: "isspace (CHR '' '')"
  by (simp add: isspace_def)

lemma sentence_end_not_space: "sentence_end c \<Longrightarrow> \<not> isspace c"
  by (auto simp: sentence_end_def isspace_def)

lemma nonspace_Nil [simp]: "nonspace [] = []"
  by (simp add: nonspace_def)

lemma nonspace_append [simp]: "nonspace (xs @ ys) = nonspace xs @ nonspace ys"
  by (simp add: nonspace_def)

lemma nonspace_Cons: "nonspace (c # s) = (if isspace c then nonspace s else c # nonspace s)"
  by (simp add: nonspace_def)

lemma nonspace_dropWhile [simp]: "nonspace (dropWhile isspace s) = nonspace s"
  by (induction s) (auto simp: nonspace_def)

lemma nonspace_rev: "nonspace (rev s) = rev (nonspace s)"
  by (simp add: nonspace_def rev_filter)

lemma nonspace_strip [simp]: "nonspace (strip s) = nonspace s"
  by (simp add: strip_def nonspace_rev)

lemma nonspace_Nil_iff: "nonspace s = [] \<longleftrightarrow> (\<forall>c \<in> set s. isspace c)"
  by (auto simp: nonspace_def filter_empty_conv)

lemma strip_Nil_iff: "strip s = [] \<longleftrightarrow> (\<forall>c \<in> set s. isspace c)"
proof -
  have "strip s = [] \<longleftrightarrow> dropWhile isspace (rev (dropWhile isspace s)) = []"
    by (simp add: strip_def)
  also have "\<dots> \<longleftrightarrow> (\<forall>c \<in> set (dropWhile isspace s). isspace c)"
    by (simp add: dropWhile_eq_Nil_conv)
  also have "\<dots> \<longleftrightarrow> dropWhile isspace s = []"
    by (metis dropWhile_eq_Nil_conv dropWhile_idem)
  also have "\<dots> \<longleftrightarrow> (\<forall>c \<in> set s. isspace c)"
    by (simp add: dropWhile_eq_Nil_conv)
  finally show ?thesis .
qed

lemma strip_stripped: "stripped s \<Longrightarrow> strip s = s"
proof -
  assume st: "stripped s"
  then have 1: "dropWhile isspace s = s"
    by (cases s) (auto simp: stripped_def)
  from st have "rev s \<noteq> []" and "\<not> isspace (hd (rev s))"
    by (auto simp: stripped_def hd_rev)
  then have "dropWhile isspace (rev s) = rev s"
    by (cases "rev s") auto
  with 1 show ?thesis by (simp add: strip_def)
qed

lemma stripped_strip: "strip s \<noteq> [] \<Longrightarrow> stripped (strip s)"
proof -
  assume ne: "strip s \<noteq> []"
  let ?d = "dropWhile isspace s"
  let ?r = "dropWhile isspace (rev ?d)"
  from ne have rne: "?r \<noteq> []" by (simp add: strip_def)
  then have l: "\<not> isspace (hd ?r)" by (simp add: hd_dropWhile)
  have dne: "?d \<noteq> []"
  proof
    assume "?d = []"
    then have "rev ?d = []" by (simp only: rev.simps)
    then have "?r = []" by (simp only: dropWhile.simps)
    with rne show False by (simp only: not_True_eq_False simp_thms)
  qed
  then have h: "\<not> isspace (hd ?d)" by (simp add: hd_dropWhile)
  obtain ys where ys: "rev ?d = ys @ ?r"
    by (metis takeWhile_dropWhile_id)
  then have "?d = rev ?r @ rev ys"
    by (metis rev_append rev_rev_ident)
  with rne have "hd (rev ?r) = hd ?d"
    by (metis hd_append2 rev_is_Nil_conv)
  with h l rne show ?thesis
    by (simp add: stripped_def strip_def last_rev)
qed

lemma strip_prefix_suffix: "\<exists>xs ys. s = xs @ strip s @ ys"
proof -
  let ?d = "dropWhile isspace s"
  let ?r = "dropWhile isspace (rev ?d)"
  obtain ys where ys: "rev ?d = ys @ ?r"
    by (metis takeWhile_dropWhile_id)
  then have "?d = rev ?r @ rev ys"
    by (metis rev_append rev_rev_ident)
  moreover obtain xs where "s = xs @ ?d"
    by (metis takeWhile_dropWhile_id)
  ultimately show ?thesis
    unfolding strip_def by metis
qed

lemma length_join_sp:
  "length (join_sp xs) = sum_list (map length xs) + (length xs - 1)"
  by (induction xs rule: join_sp.induct) auto

lemma nonspace_join_sp [simp]: "nonspace (join_sp xs) = nonspace (concat xs)"
  by (induction xs rule: join_sp.induct) (auto simp: nonspace_Cons)

lemma join_sp_snoc: "xs \<noteq> [] \<Longrightarrow> join_sp (xs @ [y]) = join_sp xs @ '' '' @ y"
  by (induction xs rule: join_sp.induct) auto

lemma no_boundary_single_sep: "no_boundary s \<Longrightarrow> single_sep s"
  by (induction s rule: no_boundary.induct) auto

lemma no_boundary_tl: "no_boundary (c # s) \<Longrightarrow> no_boundary s"
  by (cases s) auto

lemma no_boundary_append_right: "no_boundary (xs @ ys) \<Longrightarrow> no_boundary ys"
  by (induction xs) (auto dest: no_boundary_tl)

lemma no_boundary_append_left: "no_boundary (xs @ ys) \<Longrightarrow> no_boundary xs"
proof (induction xs rule: no_boundary.induct)
  case (1 c d s)
  then show ?case by auto
qed auto

lemma no_boundary_strip: "no_boundary s \<Longrightarrow> no_boundary (strip s)"
  using strip_prefix_suffix [of s]
  by (metis no_boundary_append_left no_boundary_append_right)

lemma no_boundary_slice: "no_boundary s \<Longrightarrow> no_boundary (slice s a b)"
  unfolding slice_def
  by (metis append_take_drop_id no_boundary_append_left no_boundary_append_right)

lemma single_sep_append:
  "single_sep xs \<Longrightarrow> single_sep (y # ys) \<Longrightarrow>
   (xs \<noteq> [] \<Longrightarrow> sentence_end (last xs) \<Longrightarrow> isspace y \<Longrightarrow>
      y = CHR '' '' \<and> ys \<noteq> [] \<and> \<not> isspace (hd ys)) \<Longrightarrow>
   single_sep (xs @ y # ys)"
proof (induction xs rule: single_sep.induct)
  case (1 c d s)
  then show ?case by (cases s) auto
qed auto

lemma normal_text_join2:
  assumes "normal_text x" and "normal_text y"
  shows "normal_text (x @ '' '' @ y)"
proof -
  from assms have x: "x \<noteq> []" "\<not> isspace (hd x)" "\<not> isspace (last x)" "single_sep x"
    and y: "y \<noteq> []" "\<not> isspace (hd y)" "\<not> isspace (last y)" "single_sep y"
    by (auto simp: normal_text_def stripped_def)
  from y have "single_sep (CHR '' '' # y)"
    by (cases y) (auto simp: sentence_end_def)
  with x y have "single_sep (x @ CHR '' '' # y)"
    by (intro single_sep_append) auto
  moreover from x y have "stripped (x @ CHR '' '' # y)"
    by (auto simp: stripped_def)
  ultimately show ?thesis by (simp add: normal_text_def)
qed

lemma normal_text_join_sp:
  "xs \<noteq> [] \<Longrightarrow> \<forall>x \<in> set xs. normal_text x \<Longrightarrow> normal_text (join_sp xs)"
proof (induction xs rule: join_sp.induct)
  case (3 x y ys)
  then have "normal_text (join_sp (y # ys))" by simp
  with 3 show ?case using normal_text_join2 [of x "join_sp (y # ys)"] by simp
qed auto

lemma re_split_not_Nil: "re_split s \<noteq> []"
  by (induction s rule: re_split.induct) (auto split: list.splits)

lemma re_split_hd: "hd (re_split (d # s)) \<noteq> [] \<and> hd (hd (re_split (d # s))) = d"
  by (cases s) (auto split: list.splits)

lemma re_split_no_boundary: "p \<in> set (re_split s) \<Longrightarrow> no_boundary p"
proof (induction s arbitrary: p rule: re_split.induct)
  case (3 c d s)
  show ?case
  proof (cases "sentence_end c \<and> isspace d")
    case True
    with 3 show ?thesis by auto
  next
    case False
    obtain q qs where q: "re_split (d # s) = q # qs"
      using re_split_not_Nil [of "d # s"] by (cases "re_split (d # s)") auto
    with re_split_hd [of d s] obtain q' where q': "q = d # q'"
      by (cases q) auto
    from 3(2) [OF False] q have "no_boundary q" and rest: "\<And>r. r \<in> set qs \<Longrightarrow> no_boundary r"
      by auto
    with q' False have "no_boundary (c # q)" by auto
    with 3(3) False q rest show ?thesis by auto
  qed
qed auto

lemma nonspace_re_split: "nonspace (concat (re_split s)) = nonspace s"
proof (induction s rule: re_split.induct)
  case (3 c d s)
  show ?case
  proof (cases "sentence_end c \<and> isspace d")
    case True
    with 3 show ?thesis by (simp add: nonspace_Cons)
  next
    case False
    obtain q qs where q: "re_split (d # s) = q # qs"
      using re_split_not_Nil [of "d # s"] by (cases "re_split (d # s)") auto
    with 3(2) [OF False] False show ?thesis
      by (simp add: nonspace_Cons)
  qed
qed (auto simp: nonspace_def)

lemma split_into_sentences_ok: "s \<in> set (split_into_sentences tx) \<Longrightarrow> sentence_ok s"
  by (auto simp: split_into_sentences_def sentence_ok_def
      intro: stripped_strip no_boundary_strip re_split_no_boundary)

lemma nonspace_concat_map_strip: "nonspace (concat (map strip xs)) = nonspace (concat xs)"
  by (induction xs) auto

lemma nonspace_concat_filter:
  "nonspace (concat (filter (\<lambda>s. s \<noteq> [] \<and> strip s \<noteq> []) xs)) = nonspace (concat xs)"
proof (induction xs)
  case (Cons x xs)
  have "strip x = [] \<Longrightarrow> nonspace x = []"
    by (simp add: strip_Nil_iff nonspace_Nil_iff)
  with Cons show ?case by auto
qed simp

lemma nonspace_split_into_sentences:
  "nonspace (concat (split_into_sentences tx)) = nonspace tx"
  by (simp add: split_into_sentences_def nonspace_concat_map_strip nonspace_concat_filter
      nonspace_re_split)

lemma split_into_sentences_Nil: "split_into_sentences tx = [] \<Longrightarrow> nonspace tx = []"
  using nonspace_split_into_sentences [of tx] by simp

subsection \<open>Parts of a long sentence\<close>

lemma strip_Nil_nonspace: "strip s = [] \<Longrightarrow> nonspace s = []"
  by (simp add: strip_Nil_iff nonspace_Nil_iff)

lemma nonspace_split_parts:
  "1 \<le> cs \<Longrightarrow> nonspace (concat (split_parts cs tx start)) = nonspace (drop start tx)"
proof (induction cs tx start rule: split_parts.induct)
  case (1 cs tx start)
  show ?case
  proof (cases "start < length tx")
    case False
    then show ?thesis by (subst split_parts.simps) simp
  next
    case True
    let ?e = "split_end cs tx start"
    from True 1(2) have prog: "start < ?e" by (simp add: split_end_progress)
    have "drop start tx = slice tx start ?e @ drop ?e tx"
    proof -
      have "drop ?e tx = drop (?e - start) (drop start tx)"
        using prog by simp
      then show ?thesis
        unfolding slice_def by (simp only: append_take_drop_id)
    qed
    then have "nonspace (drop start tx) = nonspace (strip (slice tx start ?e)) @ nonspace (drop ?e tx)"
      by (metis nonspace_append nonspace_strip)
    moreover have "nonspace (concat (split_parts cs tx ?e)) = nonspace (drop ?e tx)"
      using 1(1) [OF _ refl refl] True prog 1(2) by simp
    ultimately show ?thesis
      using True prog by (subst split_parts.simps) (simp add: Let_def strip_Nil_nonspace)
  qed
qed

lemma split_parts_normal:
  "no_boundary tx \<Longrightarrow> p \<in> set (split_parts cs tx start) \<Longrightarrow> normal_text p"
proof (induction cs tx start rule: split_parts.induct)
  case (1 cs tx start)
  let ?part = "strip (slice tx start (split_end cs tx start))"
  have "?part \<noteq> [] \<Longrightarrow> normal_text ?part"
    using 1(2)
    by (simp add: normal_text_def stripped_strip no_boundary_single_sep no_boundary_strip
        no_boundary_slice)
  with 1(3) show ?case
    using 1(1) [OF _ refl refl] 1(2)
    by (subst (asm) split_parts.simps) (auto simp: Let_def split: if_splits)
qed

lemma split_long_text_Some:
  assumes "cs < length s" and "split_long_text cs s = Some parts"
  shows "1 \<le> cs \<and> parts = split_parts cs s 0"
proof (cases "cs = 0")
  case True
  with assms have "split_long_text cs s = None"
    by (simp add: split_long_text_def split_loop_stuck)
  with assms show ?thesis by simp
next
  case False
  with assms show ?thesis
    by (simp add: split_long_text_def split_loop_parts)
qed

lemma split_long_text_total: "1 \<le> cs \<Longrightarrow> \<exists>parts. split_long_text cs s = Some parts"
  by (simp add: split_long_text_def split_loop_parts)

lemma split_long_text_parts:
  assumes "cs < length s" and "split_long_text cs s = Some parts"
  shows "nonspace (concat parts) = nonspace s"
    and "p \<in> set parts \<Longrightarrow> p \<noteq> [] \<and> length p \<le> cs"
    and "no_boundary s \<Longrightarrow> p \<in> set parts \<Longrightarrow> normal_text p"
  using split_long_text_Some [OF assms] nonspace_split_parts [of cs s 0]
    split_parts_bound [of p cs s 0] split_parts_normal [of s p cs 0]
  by auto

subsection \<open>The aggregation loop\<close>

lemma agg_loop_long:
  "cs < length sent \<Longrightarrow>
   agg_loop cs uu sid pg (sent # rest) chunks buffer buffer_len idx =
     (case split_long_text cs sent of
        None \<Rightarrow> None
      | Some parts \<Rightarrow>
          agg_loop cs uu sid pg rest
            (fst (emit_parts uu sid pg parts (fst (flushed uu sid pg chunks buffer idx))
                    (snd (flushed uu sid pg chunks buffer idx))))
            [] (if buffer \<noteq> [] then 0 else buffer_len)
            (snd (emit_parts uu sid pg parts (fst (flushed uu sid pg chunks buffer idx))
                    (snd (flushed uu sid pg chunks buffer idx)))))"
  by (auto simp: flushed_def Let_def split: prod.splits option.splits)

lemma agg_loop_append:
  "\<not> cs < length sent \<Longrightarrow> buffer_len + length sent + 1 \<le> cs \<Longrightarrow>
   agg_loop cs uu sid pg (sent # rest) chunks buffer buffer_len idx =
     agg_loop cs uu sid pg rest chunks (buffer @ [sent]) (buffer_len + (length sent + 1)) idx"
  by (simp add: Let_def)

lemma agg_loop_new:
  "\<not> cs < length sent \<Longrightarrow> \<not> buffer_len + length sent + 1 \<le> cs \<Longrightarrow>
   agg_loop cs uu sid pg (sent # rest) chunks buffer buffer_len idx =
     agg_loop cs uu sid pg rest (fst (emit_buffer uu sid pg chunks buffer idx)) [sent]
       (length sent + 1) (snd (emit_buffer uu sid pg chunks buffer idx))"
  by (simp add: Let_def split: prod.splits)

declare agg_loop.simps(2) [simp del]

lemma mk_chunk_sel [simp]:
  "c_text (mk_chunk uu sid pg idx t) = t"
  "chunk_index (meta (mk_chunk uu sid pg idx t)) = idx"
  "char_len (meta (mk_chunk uu sid pg idx t)) = length t"
  "page (meta (mk_chunk uu sid pg idx t)) = pg"
  "source_id (meta (mk_chunk uu sid pg idx t)) = sid"
  by (simp_all add: mk_chunk_def)

lemma wf_mk_chunk: "normal_text t \<Longrightarrow> length t \<le> cs \<Longrightarrow> wf_chunk cs (mk_chunk uu sid pg idx t)"
  by (simp add: wf_chunk_def)

lemma indices_snoc: "indices chunks = [0..<idx] \<Longrightarrow> indices (chunks @ [mk_chunk uu sid pg idx t]) = [0..<Suc idx]"
  by (simp add: indices_def)

lemma emit_buffer_nonempty:
  "buffer \<noteq> [] \<Longrightarrow> list_all normal_text buffer \<Longrightarrow>
   emit_buffer uu sid pg chunks buffer idx =
     (chunks @ [mk_chunk uu sid pg idx (join_sp buffer)], Suc idx)"
proof -
  assume "buffer \<noteq> []" and "list_all normal_text buffer"
  then have "normal_text (join_sp buffer)"
    by (simp add: normal_text_join_sp list_all_iff)
  then have "strip (join_sp buffer) = join_sp buffer" and "join_sp buffer \<noteq> []"
    by (auto simp: normal_text_def strip_stripped stripped_def)
  then show ?thesis by (simp add: emit_buffer_def)
qed

lemma emit_buffer_Nil: "emit_buffer uu sid pg chunks [] idx = (chunks, idx)"
  by (simp add: emit_buffer_def strip_def)

lemma flushed_inv:
  assumes "agg_inv cs chunks buffer buffer_len idx"
  shows "list_all (wf_chunk cs) (fst (flushed uu sid pg chunks buffer idx))"
    and "indices (fst (flushed uu sid pg chunks buffer idx)) = [0..<snd (flushed uu sid pg chunks buffer idx)]"
proof -
  show "list_all (wf_chunk cs) (fst (flushed uu sid pg chunks buffer idx))"
  proof (cases "buffer = []")
    case True
    with assms show ?thesis by (simp add: flushed_def agg_inv_def)
  next
    case False
    with assms have "normal_text (join_sp buffer)" and "length (join_sp buffer) \<le> cs"
      by (auto simp: agg_inv_def normal_text_join_sp list_all_iff)
    with False assms show ?thesis
      by (simp add: flushed_def agg_inv_def emit_buffer_nonempty wf_mk_chunk)
  qed
  show "indices (fst (flushed uu sid pg chunks buffer idx)) = [0..<snd (flushed uu sid pg chunks buffer idx)]"
    using assms
    by (cases "buffer = []") (simp_all add: flushed_def agg_inv_def emit_buffer_nonempty indices_snoc)
qed

lemma emit_buffer_flushed: "emit_buffer uu sid pg chunks buffer idx = flushed uu sid pg chunks buffer idx"
  by (simp add: flushed_def emit_buffer_Nil)

lemma emit_parts_inv:
  "list_all (wf_chunk cs) chunks \<Longrightarrow> indices chunks = [0..<idx] \<Longrightarrow>
   \<forall>p \<in> set parts. normal_text p \<and> length p \<le> cs \<Longrightarrow>
   list_all (wf_chunk cs) (fst (emit_parts uu sid pg parts chunks idx)) \<and>
   indices (fst (emit_parts uu sid pg parts chunks idx)) = [0..<snd (emit_parts uu sid pg parts chunks idx)]"
proof (induction parts arbitrary: chunks idx)
  case Nil
  then show ?case by simp
next
  case (Cons p parts)
  show ?case
    using Cons.prems
    by (simp del: upt_Suc) (rule Cons.IH, simp_all add: wf_mk_chunk indices_snoc del: upt_Suc)
qed

lemma agg_loop_inv:
  "agg_loop cs uu sid pg sentences chunks buffer buffer_len idx = Some (chunks', buffer', buffer_len', idx') \<Longrightarrow>
   \<forall>s \<in> set sentences. sentence_ok s \<Longrightarrow>
   agg_inv cs chunks buffer buffer_len idx \<Longrightarrow>
   agg_inv cs chunks' buffer' buffer_len' idx'"
proof (induction sentences arbitrary: chunks buffer buffer_len idx)
  case Nil
  then show ?case by simp
next
  case (Cons sent rest)
  from Cons.prems(2) have ok: "sentence_ok sent" and rest: "\<forall>s \<in> set rest. sentence_ok s"
    by auto
  then have nt: "normal_text sent"
    by (simp add: sentence_ok_def normal_text_def no_boundary_single_sep)
  note inv = Cons.prems(3)
  consider (long) "cs < length sent"
    | (app) "\<not> cs < length sent" "buffer_len + length sent + 1 \<le> cs"
    | (new) "\<not> cs < length sent" "\<not> buffer_len + length sent + 1 \<le> cs"
    by blast
  then show ?case
  proof cases
    case long
    with Cons.prems(1) obtain parts where parts: "split_long_text cs sent = Some parts"
      by (cases "split_long_text cs sent") (auto simp: agg_loop_long)
    let ?f = "flushed uu sid pg chunks buffer idx"
    let ?e = "emit_parts uu sid pg parts (fst ?f) (snd ?f)"
    from ok have "\<forall>p \<in> set parts. normal_text p \<and> length p \<le> cs"
      using split_long_text_parts(2,3) [OF long parts] by (auto simp: sentence_ok_def)
    with flushed_inv [OF inv, of uu sid pg]
    have "list_all (wf_chunk cs) (fst ?e) \<and> indices (fst ?e) = [0..<snd ?e]"
      by (intro emit_parts_inv) auto
    then have "agg_inv cs (fst ?e) [] (if buffer \<noteq> [] then 0 else buffer_len) (snd ?e)"
      using inv by (auto simp: agg_inv_def)
    moreover have "agg_loop cs uu sid pg rest (fst ?e) [] (if buffer \<noteq> [] then 0 else buffer_len) (snd ?e)
        = Some (chunks', buffer', buffer_len', idx')"
      using Cons.prems(1) long parts by (simp add: agg_loop_long)
    ultimately show ?thesis
      using Cons.IH rest by blast
  next
    case app
    have "agg_inv cs chunks (buffer @ [sent]) (buffer_len + (length sent + 1)) idx"
    proof (cases "buffer = []")
      case True
      with inv nt app show ?thesis by (simp add: agg_inv_def)
    next
      case False
      with inv nt app show ?thesis by (simp add: agg_inv_def join_sp_snoc)
    qed
    moreover have "agg_loop cs uu sid pg rest chunks (buffer @ [sent]) (buffer_len + (length sent + 1)) idx
        = Some (chunks', buffer', buffer_len', idx')"
      using Cons.prems(1) app by (simp add: agg_loop_append)
    ultimately show ?thesis
      using Cons.IH rest by blast
  next
    case new
    let ?f = "flushed uu sid pg chunks buffer idx"
    have "agg_inv cs (fst ?f) [sent] (length sent + 1) (snd ?f)"
      using flushed_inv [OF inv, of uu sid pg] nt new by (simp add: agg_inv_def)
    moreover have "agg_loop cs uu sid pg rest (fst ?f) [sent] (length sent + 1) (snd ?f)
        = Some (chunks', buffer', buffer_len', idx')"
      using Cons.prems(1) new by (simp add: agg_loop_new emit_buffer_flushed)
    ultimately show ?thesis
      using Cons.IH rest by blast
  qed
qed

lemma texts_append [simp]: "texts (xs @ ys) = texts xs @ texts ys"
  by (simp add: texts_def)

lemma texts_simps [simp]: "texts [] = []" "texts (c # cs') = c_text c @ texts cs'"
  by (simp_all add: texts_def)

lemma nonspace_flushed:
  "nonspace (texts (fst (flushed uu sid pg chunks buffer idx)))
     = nonspace (texts chunks) @ nonspace (concat buffer)"
  by (auto simp: flushed_def emit_buffer_def Let_def dest: strip_Nil_nonspace)

lemma nonspace_emit_parts:
  "nonspace (texts (fst (emit_parts uu sid pg parts chunks idx)))
     = nonspace (texts chunks) @ nonspace (concat parts)"
  by (induction parts arbitrary: chunks idx) auto

lemma agg_loop_content:
  "agg_loop cs uu sid pg sentences chunks buffer buffer_len idx = Some (chunks', buffer', buffer_len', idx') \<Longrightarrow>
   nonspace (texts chunks') @ nonspace (concat buffer')
     = nonspace (texts chunks) @ nonspace (concat buffer) @ nonspace (concat sentences)"
proof (induction sentences arbitrary: chunks buffer buffer_len idx)
  case Nil
  then show ?case by simp
next
  case (Cons sent rest)
  consider (long) "cs < length sent"
    | (app) "\<not> cs < length sent" "buffer_len + length sent + 1 \<le> cs"
    | (new) "\<not> cs < length sent" "\<not> buffer_len + length sent + 1 \<le> cs"
    by blast
  then show ?case
  proof cases
    case long
    with Cons.prems(1) obtain parts where parts: "split_long_text cs sent = Some parts"
      by (cases "split_long_text cs sent") (auto simp: agg_loop_long)
    let ?f = "flushed uu sid pg chunks buffer idx"
    let ?e = "emit_parts uu sid pg parts (fst ?f) (snd ?f)"
    have "agg_loop cs uu sid pg rest (fst ?e) [] (if buffer \<noteq> [] then 0 else buffer_len) (snd ?e)
        = Some (chunks', buffer', buffer_len', idx')"
      using Cons.prems(1) long parts by (simp add: agg_loop_long)
    from Cons.IH [OF this] show ?thesis
      using split_long_text_parts(1) [OF long parts]
      by (simp add: nonspace_emit_parts nonspace_flushed)
  next
    case app
    have "agg_loop cs uu sid pg rest chunks (buffer @ [sent]) (buffer_len + (length sent + 1)) idx
        = Some (chunks', buffer', buffer_len', idx')"
      using Cons.prems(1) app by (simp add: agg_loop_append)
    from Cons.IH [OF this] show ?thesis by simp
  next
    case new
    let ?f = "flushed uu sid pg chunks buffer idx"
    have "agg_loop cs uu sid pg rest (fst ?f) [sent] (length sent + 1) (snd ?f)
        = Some (chunks', buffer', buffer_len', idx')"
      using Cons.prems(1) new by (simp add: agg_loop_new emit_buffer_flushed)
    from Cons.IH [OF this] show ?thesis by (simp add: nonspace_flushed)
  qed
qed

lemma agg_loop_total:
  "1 \<le> cs \<Longrightarrow> \<exists>r. agg_loop cs uu sid pg sentences chunks buffer buffer_len idx = Some r"
proof (induction sentences arbitrary: chunks buffer buffer_len idx)
  case Nil
  then show ?case by simp
next
  case (Cons sent rest)
  consider (long) "cs < length sent"
    | (app) "\<not> cs < length sent" "buffer_len + length sent + 1 \<le> cs"
    | (new) "\<not> cs < length sent" "\<not> buffer_len + length sent + 1 \<le> cs"
    by blast
  then show ?case
  proof cases
    case long
    from split_long_text_total [OF Cons.prems, of sent]
    obtain parts where "split_long_text cs sent = Some parts" by blast
    with long show ?thesis
      using Cons.IH [OF Cons.prems] by (simp add: agg_loop_long)
  next
    case app
    then show ?thesis
      using Cons.IH [OF Cons.prems] by (simp add: agg_loop_append)
  next
    case new
    then show ?thesis
      using Cons.IH [OF Cons.prems] by (simp add: agg_loop_new)
  qed
qed

lemma agg_loop_stuck:
  "sent \<noteq> [] \<Longrightarrow> agg_loop 0 uu sid pg (sent # rest) chunks buffer buffer_len idx = None"
  by (simp add: agg_loop_long split_long_text_def split_loop_stuck)

subsection \<open>The emitted chunks\<close>

lemma emitted_chunks_flushed:
  "emitted_chunks cs uu sentences sid pg =
     (case agg_loop cs uu sid pg sentences [] [] 0 0 of
        None \<Rightarrow> None
      | Some (chunks, buffer, buffer_len, idx) \<Rightarrow> Some (fst (flushed uu sid pg chunks buffer idx)))"
  by (auto simp: emitted_chunks_def flushed_def split: option.splits)

lemma agg_inv_init: "agg_inv cs [] [] 0 0"
  by (simp add: agg_inv_def indices_def)

lemma emitted_chunks_wf:
  assumes "emitted_chunks cs uu sentences sid pg = Some chunks"
    and "\<forall>s \<in> set sentences. sentence_ok s"
  shows "list_all (wf_chunk cs) chunks" and "indices chunks = [0..<length chunks]"
proof -
  from assms(1) obtain ch b bl i where
    loop: "agg_loop cs uu sid pg sentences [] [] 0 0 = Some (ch, b, bl, i)"
    and chunks: "chunks = fst (flushed uu sid pg ch b i)"
    by (auto simp: emitted_chunks_flushed split: option.splits)
  from agg_loop_inv [OF loop assms(2) agg_inv_init] have inv: "agg_inv cs ch b bl i" .
  from flushed_inv [OF inv, of uu sid pg] chunks
  show "list_all (wf_chunk cs) chunks" and ix: "indices chunks = [0..<length chunks]"
    by (auto simp: indices_def dest: arg_cong [where f = length])
qed

lemma emitted_chunks_content:
  assumes "emitted_chunks cs uu sentences sid pg = Some chunks"
  shows "nonspace (texts chunks) = nonspace (concat sentences)"
proof -
  from assms obtain ch b bl i where
    loop: "agg_loop cs uu sid pg sentences [] [] 0 0 = Some (ch, b, bl, i)"
    and chunks: "chunks = fst (flushed uu sid pg ch b i)"
    by (auto simp: emitted_chunks_flushed split: option.splits)
  from agg_loop_content [OF loop] chunks show ?thesis
    by (simp add: nonspace_flushed)
qed

lemma emitted_chunks_total:
  "1 \<le> cs \<Longrightarrow> \<exists>chunks. emitted_chunks cs uu sentences sid pg = Some chunks"
  using agg_loop_total [of cs uu sid pg sentences "[]" "[]" 0 0]
  by (auto simp: emitted_chunks_flushed)

subsection \<open>The merge pass\<close>

lemma merge_pass_first: "merge_pass cs mn [] (c # rest) = merge_pass cs mn [c] rest"
  by simp

lemma merge_pass_snoc:
  "merge_pass cs mn (ms @ [p]) (c # rest) =
     (if absorbs cs mn p c then merge_pass cs mn (ms @ [absorb p c]) rest
      else merge_pass cs mn (ms @ [p, c]) rest)"
  by (simp add: absorbs_def Let_def)

declare merge_pass.simps(2) [simp del]

lemma absorb_sel [simp]:
  "chunk_index (meta (absorb p c)) = chunk_index (meta p)"
  "c_id (absorb p c) = c_id p"
  "source_id (meta (absorb p c)) = source_id (meta p)"
  "page (meta (absorb p c)) = page (meta p)"
  "c_text (absorb p c) = strip (c_text p @ '' '' @ c_text c)"
  "char_len (meta (absorb p c)) = length (strip (c_text p @ '' '' @ c_text c))"
  by (simp_all add: absorb_def Let_def)

lemma absorb_wf:
  assumes "wf_chunk cs p" and "wf_chunk cs c" and "absorbs cs mn p c"
  shows "c_text (absorb p c) = c_text p @ '' '' @ c_text c"
    and "char_len (meta (absorb p c)) = char_len (meta p) + 1 + char_len (meta c)"
    and "wf_chunk cs (absorb p c)"
proof -
  from assms have nt: "normal_text (c_text p @ '' '' @ c_text c)"
    using normal_text_join2 [of "c_text p" "c_text c"] by (simp add: wf_chunk_def)
  then have st: "strip (c_text p @ '' '' @ c_text c) = c_text p @ '' '' @ c_text c"
    by (simp add: normal_text_def strip_stripped)
  then show "c_text (absorb p c) = c_text p @ '' '' @ c_text c" by simp
  from st assms show "char_len (meta (absorb p c)) = char_len (meta p) + 1 + char_len (meta c)"
    by (simp add: wf_chunk_def)
  from st nt assms show "wf_chunk cs (absorb p c)"
    by (simp add: wf_chunk_def absorbs_def)
qed

lemma merge_pass_wf:
  "list_all (wf_chunk cs) merged \<Longrightarrow> list_all (wf_chunk cs) rest \<Longrightarrow>
   list_all (wf_chunk cs) (merge_pass cs mn merged rest)"
proof (induction rest arbitrary: merged)
  case Nil
  then show ?case by simp
next
  case (Cons c rest)
  show ?case
  proof (cases merged rule: rev_cases)
    case Nil
    with Cons show ?thesis by (simp add: merge_pass_first)
  next
    case (snoc ms p)
    with Cons.prems have wf: "list_all (wf_chunk cs) ms" "wf_chunk cs p" "wf_chunk cs c"
      "list_all (wf_chunk cs) rest"
      by auto
    show ?thesis
    proof (cases "absorbs cs mn p c")
      case True
      with wf have "list_all (wf_chunk cs) (ms @ [absorb p c])"
        by (simp add: absorb_wf(3))
      with Cons.IH wf True snoc show ?thesis by (simp add: merge_pass_snoc)
    next
      case False
      with wf have "list_all (wf_chunk cs) (ms @ [p, c])" by simp
      with Cons.IH wf False snoc show ?thesis by (simp add: merge_pass_snoc)
    qed
  qed
qed

lemma nonspace_merge_pass:
  "nonspace (texts (merge_pass cs mn merged rest)) = nonspace (texts merged) @ nonspace (texts rest)"
proof (induction rest arbitrary: merged)
  case Nil
  then show ?case by simp
next
  case (Cons c rest)
  show ?case
  proof (cases merged rule: rev_cases)
    case Nil
    with Cons show ?thesis by (simp add: merge_pass_first)
  next
    case (snoc ms p)
    with Cons show ?thesis
      by (simp add: merge_pass_snoc nonspace_Cons)
  qed
qed

lemma merge_pass_indices:
  "sorted_wrt (<) (indices (merged @ rest)) \<Longrightarrow>
   sorted_wrt (<) (indices (merge_pass cs mn merged rest)) \<and>
   set (indices (merge_pass cs mn merged rest)) \<subseteq> set (indices (merged @ rest)) \<and>
   take 1 (indices (merge_pass cs mn merged rest)) = take 1 (indices (merged @ rest))"
proof (induction rest arbitrary: merged)
  case Nil
  then show ?case by simp
next
  case (Cons c rest)
  show ?case
  proof (cases merged rule: rev_cases)
    case Nil
    with Cons.IH [of "[c]"] Cons.prems show ?thesis by (simp add: merge_pass_first)
  next
    case (snoc ms p)
    show ?thesis
    proof (cases "absorbs cs mn p c")
      case True
      have eq: "merge_pass cs mn merged (c # rest) = merge_pass cs mn (ms @ [absorb p c]) rest"
        using True snoc by (simp add: merge_pass_snoc)
      have ix: "indices (ms @ [absorb p c]) = indices merged"
        using snoc by (simp add: indices_def)
      have "sorted_wrt (<) (indices ((ms @ [absorb p c]) @ rest))"
        using Cons.prems snoc by (auto simp: indices_def sorted_wrt_append)
      from Cons.IH [OF this] have
        "sorted_wrt (<) (indices (merge_pass cs mn (ms @ [absorb p c]) rest))"
        "set (indices (merge_pass cs mn (ms @ [absorb p c]) rest))
           \<subseteq> set (indices ((ms @ [absorb p c]) @ rest))"
        "take 1 (indices (merge_pass cs mn (ms @ [absorb p c]) rest))
           = take 1 (indices ((ms @ [absorb p c]) @ rest))"
        by blast+
      moreover have "set (indices ((ms @ [absorb p c]) @ rest)) \<subseteq> set (indices (merged @ c # rest))"
        using snoc by (auto simp: indices_def)
      moreover have "take 1 (indices ((ms @ [absorb p c]) @ rest)) = take 1 (indices (merged @ c # rest))"
        using snoc by (cases ms) (simp_all add: indices_def)
      ultimately show ?thesis
        unfolding eq by (simp only:) blast
    next
      case False
      have "sorted_wrt (<) (indices ((ms @ [p, c]) @ rest))"
        using Cons.prems snoc by simp
      from Cons.IH [OF this] False snoc show ?thesis
        by (simp add: merge_pass_snoc)
    qed
  qed
qed

text \<open>No chunk of the result would still absorb its successor.\<close>

lemma merge_pass_maximal:
  "list_all (wf_chunk cs) merged \<Longrightarrow> list_all (wf_chunk cs) rest \<Longrightarrow>
   successively (\<lambda>a b. \<not> absorbs cs mn a b) merged \<Longrightarrow>
   successively (\<lambda>a b. \<not> absorbs cs mn a b) (merge_pass cs mn merged rest)"
proof (induction rest arbitrary: merged)
  case Nil
  then show ?case by simp
next
  case (Cons c rest)
  show ?case
  proof (cases merged rule: rev_cases)
    case Nil
    with Cons.IH [of "[c]"] Cons.prems show ?thesis by (simp add: merge_pass_first)
  next
    case (snoc ms p)
    with Cons.prems have wf: "list_all (wf_chunk cs) ms" "wf_chunk cs p" "wf_chunk cs c"
      "list_all (wf_chunk cs) rest"
      by auto
    from Cons.prems(3) snoc have suc: "successively (\<lambda>a b. \<not> absorbs cs mn a b) ms"
      and lst: "ms \<noteq> [] \<Longrightarrow> \<not> absorbs cs mn (last ms) p"
      by (auto simp: successively_append_iff)
    show ?thesis
    proof (cases "absorbs cs mn p c")
      case True
      from absorb_wf(2) [OF wf(2,3) True] lst
      have "ms \<noteq> [] \<Longrightarrow> \<not> absorbs cs mn (last ms) (absorb p c)"
        by (auto simp: absorbs_def)
      with suc have "successively (\<lambda>a b. \<not> absorbs cs mn a b) (ms @ [absorb p c])"
        by (auto simp: successively_append_iff)
      moreover from wf True have "list_all (wf_chunk cs) (ms @ [absorb p c])"
        by (simp add: absorb_wf(3))
      ultimately show ?thesis
        using Cons.IH wf True snoc by (simp add: merge_pass_snoc)
    next
      case False
      with Cons.prems(3) snoc
      have "successively (\<lambda>a b. \<not> absorbs cs mn a b) (ms @ [p, c])"
        by (auto simp: successively_append_iff)
      moreover from wf have "list_all (wf_chunk cs) (ms @ [p, c])" by simp
      ultimately show ?thesis
        using Cons.IH wf False snoc by (simp add: merge_pass_snoc)
    qed
  qed
qed

subsection \<open>Indices at emission\<close>

lemma emit_buffer_indices:
  "indices chunks = [0..<idx] \<Longrightarrow>
   indices (fst (emit_buffer uu sid pg chunks buffer idx)) = [0..<snd (emit_buffer uu sid pg chunks buffer idx)]"
  by (simp add: emit_buffer_def Let_def indices_def)

lemma emit_parts_indices:
  "indices chunks = [0..<idx] \<Longrightarrow>
   indices (fst (emit_parts uu sid pg parts chunks idx)) = [0..<snd (emit_parts uu sid pg parts chunks idx)]"
proof (induction parts arbitrary: chunks idx)
  case Nil
  then show ?case by simp
next
  case (Cons p parts)
  from Cons.prems have "indices (chunks @ [mk_chunk uu sid pg idx p]) = [0..<Suc idx]"
    by (rule indices_snoc)
  from Cons.IH [OF this] show ?case by simp
qed

lemma flushed_indices:
  "indices chunks = [0..<idx] \<Longrightarrow>
   indices (fst (flushed uu sid pg chunks buffer idx)) = [0..<snd (flushed uu sid pg chunks buffer idx)]"
  by (simp add: flushed_def emit_buffer_indices)

lemma agg_loop_indices:
  "agg_loop cs uu sid pg sentences chunks buffer buffer_len idx = Some (chunks', buffer', buffer_len', idx') \<Longrightarrow>
   indices chunks = [0..<idx] \<Longrightarrow> indices chunks' = [0..<idx']"
proof (induction sentences arbitrary: chunks buffer buffer_len idx)
  case Nil
  then show ?case by simp
next
  case (Cons sent rest)
  consider (long) "cs < length sent"
    | (app) "\<not> cs < length sent" "buffer_len + length sent + 1 \<le> cs"
    | (new) "\<not> cs < length sent" "\<not> buffer_len + length sent + 1 \<le> cs"
    by blast
  then show ?case
  proof cases
    case long
    with Cons.prems(1) obtain parts where parts: "split_long_text cs sent = Some parts"
      by (cases "split_long_text cs sent") (auto simp: agg_loop_long)
    let ?f = "flushed uu sid pg chunks buffer idx"
    let ?e = "emit_parts uu sid pg parts (fst ?f) (snd ?f)"
    have "agg_loop cs uu sid pg rest (fst ?e) [] (if buffer \<noteq> [] then 0 else buffer_len) (snd ?e)
        = Some (chunks', buffer', buffer_len', idx')"
      using Cons.prems(1) long parts by (simp add: agg_loop_long)
    from Cons.IH [OF this] show ?thesis
      using emit_parts_indices [OF flushed_indices [OF Cons.prems(2)]] by blast
  next
    case app
    have "agg_loop cs uu sid pg rest chunks (buffer @ [sent]) (buffer_len + (length sent + 1)) idx
        = Some (chunks', buffer', buffer_len', idx')"
      using Cons.prems(1) app by (simp add: agg_loop_append)
    from Cons.IH [OF this Cons.prems(2)] show ?thesis .
  next
    case new
    let ?f = "flushed uu sid pg chunks buffer idx"
    have "agg_loop cs uu sid pg rest (fst ?f) [sent] (length sent + 1) (snd ?f)
        = Some (chunks', buffer', buffer_len', idx')"
      using Cons.prems(1) new by (simp add: agg_loop_new emit_buffer_flushed)
    from Cons.IH [OF this flushed_indices [OF Cons.prems(2)]] show ?thesis .
  qed
qed

lemma emitted_chunks_indices:
  assumes "emitted_chunks cs uu sentences sid pg = Some chunks"
  shows "indices chunks = [0..<length chunks]"
proof -
  from assms obtain ch b bl i where
    loop: "agg_loop cs uu sid pg sentences [] [] 0 0 = Some (ch, b, bl, i)"
    and chunks: "chunks = fst (flushed uu sid pg ch b i)"
    by (auto simp: emitted_chunks_flushed split: option.splits)
  have "indices ch = [0..<i]"
    by (rule agg_loop_indices [OF loop]) (simp add: indices_def)
  from flushed_indices [OF this, of uu sid pg b] chunks show ?thesis
    by (auto simp: indices_def dest: arg_cong [where f = length])
qed

text \<open>
  C2, as amended. The chunks get the indices \<open>0, 1, 2, \<dots>\<close> as they are emitted. The merge
  pass keeps the index of an absorbing chunk and drops the absorbed one with its index:
  the indices of the returned chunks are strictly increasing (so unique, and in emission
  order), they are indices given at emission, the first of them is \<open>0\<close>; they are not
  renumbered, so they need not be consecutive.
\<close>

theorem chunk_index_order:
  assumes "aggregate_sentences_to_chunks cs mn uu sentences sid pg = Some out"
  shows "\<exists>emitted. emitted_chunks cs uu sentences sid pg = Some emitted \<and>
           out = merge_pass cs mn [] emitted \<and>
           indices emitted = [0..<length emitted] \<and>
           sorted_wrt (<) (indices out) \<and> distinct (indices out) \<and>
           set (indices out) \<subseteq> {0..<length emitted} \<and>
           take 1 (indices out) = take 1 [0..<length emitted]"
proof -
  from assms obtain emitted where em: "emitted_chunks cs uu sentences sid pg = Some emitted"
    and out: "out = merge_pass cs mn [] emitted"
    by (auto simp: aggregate_sentences_to_chunks_def split: option.splits)
  from emitted_chunks_indices [OF em] have ix: "indices emitted = [0..<length emitted]" .
  then have "sorted_wrt (<) (indices ([] @ emitted))"
    by (simp add: sorted_wrt_upt)
  from merge_pass_indices [OF this, of cs mn] out ix
  have "sorted_wrt (<) (indices out)" and "set (indices out) \<subseteq> {0..<length emitted}"
    and "take 1 (indices out) = take 1 [0..<length emitted]"
    by auto
  moreover from \<open>sorted_wrt (<) (indices out)\<close> have "distinct (indices out)"
    by (simp add: strict_sorted_iff)
  ultimately show ?thesis using em out ix by blast
qed

theorem chunk_index_order_witness:
  "\<exists>out. aggregate_sentences_to_chunks 7 200 (\<lambda>_. ''0a1b2c3d'') [''Hi.'', ''Yo.'', ''Zz.''] ''doc'' None = Some out \<and>
      indices out = [0, 2] \<and> sorted_wrt (<) (indices out) \<and> distinct (indices out)"
proof -
  have "map_option indices
          (aggregate_sentences_to_chunks 7 200 (\<lambda>_. ''0a1b2c3d'') [''Hi.'', ''Yo.'', ''Zz.''] ''doc'' None)
        = Some [0, 2]"
    by code_simp
  then obtain out where
    out: "aggregate_sentences_to_chunks 7 200 (\<lambda>_. ''0a1b2c3d'') [''Hi.'', ''Yo.'', ''Zz.''] ''doc'' None = Some out"
    and ix: "indices out = [0, 2]"
    by auto
  from chunk_index_order [OF out] ix show ?thesis
    using out by auto
qed

text \<open>
  C2 as stated fails: with \<open>chunk_size_chars = 7\<close> the three sentences are emitted with the
  indices 0, 1, 2, the second is absorbed into the first, and the returned chunks carry
  the indices 0 and 2.
\<close>

theorem chunk_index_gap:
  "map_option (map (\<lambda>c. (c_text c, chunk_index (meta c))))
     (process_text 7 200 (\<lambda>_. ''0a1b2c3d'') ''0a1b2c3d'' ''Hi. Yo. Zz.'' None)
   = Some [(''Hi. Yo.'', 0), (''Zz.'', 2)]"
  by code_simp

section \<open>The chunker as a whole\<close>

lemma aggregate_Some:
  "aggregate_sentences_to_chunks cs mn uu sentences sid pg = Some out \<longleftrightarrow>
     (\<exists>emitted. emitted_chunks cs uu sentences sid pg = Some emitted \<and>
        out = merge_pass cs mn [] emitted)"
  by (auto simp: aggregate_sentences_to_chunks_def split: option.splits)

lemma aggregate_total:
  "1 \<le> cs \<Longrightarrow> \<exists>out. aggregate_sentences_to_chunks cs mn uu sentences sid pg = Some out"
  using emitted_chunks_total [of cs uu sentences sid pg] by (auto simp: aggregate_Some)

lemma aggregate_content:
  "aggregate_sentences_to_chunks cs mn uu sentences sid pg = Some out \<Longrightarrow>
   nonspace (texts out) = nonspace (concat sentences)"
  by (auto simp: aggregate_Some nonspace_merge_pass emitted_chunks_content)

lemma aggregate_wf:
  "aggregate_sentences_to_chunks cs mn uu sentences sid pg = Some out \<Longrightarrow>
   \<forall>s \<in> set sentences. sentence_ok s \<Longrightarrow> list_all (wf_chunk cs) out"
proof -
  assume out: "aggregate_sentences_to_chunks cs mn uu sentences sid pg = Some out"
    and ok: "\<forall>s \<in> set sentences. sentence_ok s"
  from out obtain emitted where em: "emitted_chunks cs uu sentences sid pg = Some emitted"
    and o: "out = merge_pass cs mn [] emitted"
    by (auto simp: aggregate_Some)
  from emitted_chunks_wf(1) [OF em ok] have "list_all (wf_chunk cs) emitted" .
  then show ?thesis
    unfolding o by (intro merge_pass_wf) simp_all
qed

lemma process_text_fallback:
  "split_into_sentences tx = [] \<Longrightarrow>
   process_text cs mn uu src_uu tx src = Some [mk_chunk uu (source_name src_uu src) None 0 tx]"
  by (simp add: process_text_def source_name_def)

lemma process_text_sentences:
  "split_into_sentences tx \<noteq> [] \<Longrightarrow>
   process_text cs mn uu src_uu tx src =
     aggregate_sentences_to_chunks cs mn uu (split_into_sentences tx) (source_name src_uu src) None"
  by (simp add: process_text_def source_name_def)

lemma split_into_sentences_Nil_iff: "split_into_sentences tx = [] \<longleftrightarrow> nonspace tx = []"
proof
  assume "split_into_sentences tx = []"
  then show "nonspace tx = []" by (rule split_into_sentences_Nil)
next
  assume ns: "nonspace tx = []"
  show "split_into_sentences tx = []"
  proof (rule ccontr)
    assume "split_into_sentences tx \<noteq> []"
    then obtain s ss where s: "split_into_sentences tx = s # ss"
      by (cases "split_into_sentences tx") auto
    then have "sentence_ok s"
      using split_into_sentences_ok [of s tx] by simp
    then have "nonspace s \<noteq> []"
      by (cases s) (auto simp: sentence_ok_def stripped_def nonspace_Cons)
    moreover have "nonspace (concat (split_into_sentences tx)) = []"
      using ns by (simp add: nonspace_split_into_sentences)
    ultimately show False using s by simp
  qed
qed

lemma process_text_total:
  "1 \<le> cs \<Longrightarrow> \<exists>out. process_text cs mn uu src_uu tx src = Some out"
  using aggregate_total [of cs mn uu "split_into_sentences tx" "source_name src_uu src" None]
  by (cases "split_into_sentences tx = []") (simp_all add: process_text_fallback process_text_sentences)

text \<open>
  C5. The texts of the chunks that \<open>process_text\<close> returns, put one after the other, have
  exactly the non-whitespace characters of the input, in the same order; and with
  \<open>chunk_size_chars \<ge> 1\<close> the call returns.
\<close>

theorem chunks_keep_nonspace:
  "(\<forall>out. process_text cs mn uu src_uu tx src = Some out \<longrightarrow>
           nonspace (texts out) = nonspace tx) \<and>
   (1 \<le> cs \<longrightarrow> (\<exists>out. process_text cs mn uu src_uu tx src = Some out))"
proof (intro conjI allI impI)
  fix out
  assume out: "process_text cs mn uu src_uu tx src = Some out"
  show "nonspace (texts out) = nonspace tx"
  proof (cases "split_into_sentences tx = []")
    case True
    with out show ?thesis by (auto simp: process_text_fallback)
  next
    case False
    with out show ?thesis
      using aggregate_content [of cs mn uu "split_into_sentences tx" "source_name src_uu src" None out]
      by (simp add: process_text_sentences nonspace_split_into_sentences)
  qed
next
  assume "1 \<le> cs"
  then show "\<exists>out. process_text cs mn uu src_uu tx src = Some out"
    by (rule process_text_total)
qed

theorem chunks_keep_nonspace_witness:
  "\<exists>out. process_text 10 3 (\<lambda>_. ''0a1b2c3d'') ''0a1b2c3d'' ''abcdefghijk.  B.  Ccc. '' None = Some out \<and>
      nonspace (texts out) = ''abcdefghijk.B.Ccc.''"
  using chunks_keep_nonspace [of 10 3 "\<lambda>_. ''0a1b2c3d''" "''0a1b2c3d''" "''abcdefghijk.  B.  Ccc. ''" None]
  by (auto simp: nonspace_def isspace_def)

text \<open>
  C4, as amended. With \<open>chunk_size_chars \<ge> 1\<close> and a text that has a character other than
  whitespace, \<open>process_text\<close> returns, and every chunk it returns has \<open>char_len\<close> equal
  to the length of its text and at most \<open>chunk_size_chars\<close>; so neither the merge pass nor
  the slicer of long sentences goes beyond the bound. Every part that \<open>_split_long_text\<close>
  returns for a longer string is within the bound as well.
\<close>

theorem chunk_size_bound:
  assumes "1 \<le> cs" and "nonspace tx \<noteq> []"
  shows "(\<exists>out. process_text cs mn uu src_uu tx src = Some out \<and>
            (\<forall>c \<in> set out. char_len (meta c) = length (c_text c) \<and> char_len (meta c) \<le> cs)) \<and>
         (\<forall>s parts. split_long_text cs s = Some parts \<longrightarrow> (\<forall>p \<in> set parts. length p \<le> cs))"
proof (intro conjI allI impI ballI)
  from assms(2) have ne: "split_into_sentences tx \<noteq> []"
    by (simp add: split_into_sentences_Nil_iff)
  from process_text_total [OF assms(1)] obtain out
    where out: "process_text cs mn uu src_uu tx src = Some out" by blast
  with ne have "list_all (wf_chunk cs) out"
    using aggregate_wf [of cs mn uu "split_into_sentences tx" "source_name src_uu src" None out]
      split_into_sentences_ok [of _ tx]
    by (simp add: process_text_sentences)
  with out show "\<exists>out. process_text cs mn uu src_uu tx src = Some out \<and>
            (\<forall>c \<in> set out. char_len (meta c) = length (c_text c) \<and> char_len (meta c) \<le> cs)"
    by (auto simp: list_all_iff wf_chunk_def)
next
  fix s parts p
  assume sp: "split_long_text cs s = Some parts" and p: "p \<in> set parts"
  show "length p \<le> cs"
  proof (cases "cs < length s")
    case True
    from split_long_text_parts(2) [OF True sp p] show ?thesis by simp
  next
    case False
    with sp p show ?thesis by (auto simp: split_long_text_def)
  qed
qed

theorem chunk_size_bound_witness:
  "\<exists>out. process_text 10 200 (\<lambda>_. ''0a1b2c3d'') ''0a1b2c3d''
            ''Hello world. This is a test. We will chunk this text into small pieces.'' None = Some out \<and>
      list_all (\<lambda>c. char_len (meta c) = length (c_text c) \<and> char_len (meta c) \<le> 10) out"
proof -
  have "nonspace ''Hello world. This is a test. We will chunk this text into small pieces.'' \<noteq> []"
    by (simp add: nonspace_def isspace_def)
  from chunk_size_bound [OF _ this, of 10 200 "\<lambda>_. ''0a1b2c3d''" "''0a1b2c3d''" None]
  show ?thesis by (auto simp: list_all_iff)
qed

text \<open>
  C4 as stated fails on a text of whitespace only: no sentence is found, the text is
  returned verbatim as the single chunk, and two spaces are longer than
  \<open>chunk_size_chars = 1\<close>.
\<close>

theorem chunk_size_bound_fallback:
  "map_option (map (\<lambda>c. (c_text c, char_len (meta c))))
     (process_text 1 200 (\<lambda>_. ''0a1b2c3d'') ''0a1b2c3d'' ''  '' None)
   = Some [(''  '', 2)]"
  by code_simp

subsection \<open>Cascading merges\<close>

lemma join_sp_merge_head: "join_sp ((x @ '' '' @ y) # ys) = join_sp (x # y # ys)"
  by (cases ys) simp_all

lemma joined_Nil: "wf_chunk cs c \<Longrightarrow> joined c [] = c"
  by (simp add: joined_def wf_chunk_def)

lemma joined_absorb:
  assumes "wf_chunk cs c" and "wf_chunk cs r" and "absorbs cs mn c r"
  shows "joined (absorb c r) run = joined c (r # run)"
proof -
  have t: "c_text (absorb c r) = c_text c @ '' '' @ c_text r"
    by (rule absorb_wf(1) [OF assms])
  have "join_sp (map c_text (absorb c r # run)) = join_sp (map c_text (c # r # run))"
    using join_sp_merge_head [of "c_text c" "c_text r" "map c_text run"] t by simp
  then show ?thesis
    by (simp add: joined_def absorb_def Let_def)
qed

lemma merge_pass_cascade:
  "list_all (wf_chunk cs) (c # run) \<Longrightarrow>
   cascade_ok cs mn (char_len (meta c)) (map (\<lambda>r. char_len (meta r)) run) \<Longrightarrow>
   merge_pass cs mn (ms @ [c]) (run @ post) = merge_pass cs mn (ms @ [joined c run]) post"
proof (induction run arbitrary: c)
  case Nil
  then show ?case by (simp add: joined_Nil)
next
  case (Cons r run)
  from Cons.prems have wf: "wf_chunk cs c" "wf_chunk cs r" "list_all (wf_chunk cs) run"
    and ab: "absorbs cs mn c r"
    and rest: "cascade_ok cs mn (char_len (meta c) + 1 + char_len (meta r)) (map (\<lambda>r. char_len (meta r)) run)"
    by (auto simp: absorbs_def)
  have "merge_pass cs mn (ms @ [c]) ((r # run) @ post) = merge_pass cs mn (ms @ [absorb c r]) (run @ post)"
    using ab by (simp add: merge_pass_snoc)
  also have "\<dots> = merge_pass cs mn (ms @ [joined (absorb c r) run]) post"
    using wf ab rest absorb_wf(2,3) [OF wf(1,2) ab] by (intro Cons.IH) simp_all
  also have "joined (absorb c r) run = joined c (r # run)"
    by (rule joined_absorb [OF wf(1,2) ab])
  finally show ?case .
qed

lemma merge_pass_append:
  "merge_pass cs mn merged (xs @ ys) = merge_pass cs mn (merge_pass cs mn merged xs) ys"
proof (induction xs arbitrary: merged)
  case Nil
  then show ?case by simp
next
  case (Cons x xs)
  show ?case
  proof (cases merged rule: rev_cases)
    case Nil
    with Cons show ?thesis by (simp add: merge_pass_first)
  next
    case (snoc ms p)
    with Cons show ?thesis by (simp add: merge_pass_snoc)
  qed
qed

text \<open>
  C6, as amended. In the result of the merge pass no two neighbours are both shorter than
  \<open>min_chunk_chars\<close> and small enough to fit into \<open>chunk_size_chars\<close> together. A run of
  emitted chunks \<open>c, r1, r2, \<dots>\<close> whose first chunk starts an output chunk of its own
  collapses into the single chunk \<open>joined c run\<close> (which the pass goes on with) when, at
  each absorption, the length accumulated so far is still below \<open>min_chunk_chars\<close> and the
  absorption keeps it within \<open>chunk_size_chars\<close>.
\<close>

theorem merge_pass_adjacent:
  assumes "aggregate_sentences_to_chunks cs mn uu (split_into_sentences tx) sid pg = Some out"
  shows "successively (\<lambda>a b. \<not> (char_len (meta a) < mn \<and> char_len (meta b) < mn \<and>
                                char_len (meta a) + 1 + char_len (meta b) \<le> cs)) out \<and>
         (\<forall>before c run post ms.
             emitted_chunks cs uu (split_into_sentences tx) sid pg = Some (before @ c # run @ post) \<and>
             merge_pass cs mn [] (before @ [c]) = ms @ [c] \<and>
             cascade_ok cs mn (char_len (meta c)) (map (\<lambda>r. char_len (meta r)) run)
             \<longrightarrow> out = merge_pass cs mn (ms @ [joined c run]) post)"
proof (intro conjI allI impI)
  from assms obtain emitted
    where em: "emitted_chunks cs uu (split_into_sentences tx) sid pg = Some emitted"
      and out: "out = merge_pass cs mn [] emitted"
    by (auto simp: aggregate_Some)
  have ok: "\<forall>s \<in> set (split_into_sentences tx). sentence_ok s"
    by (simp add: split_into_sentences_ok)
  from emitted_chunks_wf(1) [OF em ok] have wf: "list_all (wf_chunk cs) emitted" .
  then have "successively (\<lambda>a b. \<not> absorbs cs mn a b) out"
    unfolding out by (intro merge_pass_maximal) simp_all
  then show "successively (\<lambda>a b. \<not> (char_len (meta a) < mn \<and> char_len (meta b) < mn \<and>
                                char_len (meta a) + 1 + char_len (meta b) \<le> cs)) out"
    by (rule successively_mono) (simp add: absorbs_def)
  fix before c run post ms
  assume h: "emitted_chunks cs uu (split_into_sentences tx) sid pg = Some (before @ c # run @ post) \<and>
             merge_pass cs mn [] (before @ [c]) = ms @ [c] \<and>
             cascade_ok cs mn (char_len (meta c)) (map (\<lambda>r. char_len (meta r)) run)"
  with em have e: "emitted = (before @ [c]) @ run @ post" by simp
  with wf have wfr: "list_all (wf_chunk cs) (c # run)" by simp
  have "out = merge_pass cs mn (ms @ [c]) (run @ post)"
    unfolding out e using h by (simp only: merge_pass_append [of cs mn "[]" "before @ [c]"])
  also have "\<dots> = merge_pass cs mn (ms @ [joined c run]) post"
    using wfr h by (intro merge_pass_cascade) simp_all
  finally show "out = merge_pass cs mn (ms @ [joined c run]) post" .
qed

theorem merge_pass_adjacent_witness:
  "\<exists>out c run.
      aggregate_sentences_to_chunks 5 4 (\<lambda>_. ''0a1b2c3d'') (split_into_sentences ''a    b    c'') ''doc'' None = Some out \<and>
      emitted_chunks 5 (\<lambda>_. ''0a1b2c3d'') (split_into_sentences ''a    b    c'') ''doc'' None = Some (c # run) \<and>
      map c_text (c # run) = [''a'', ''b'', ''c''] \<and>
      cascade_ok 5 4 (char_len (meta c)) (map (\<lambda>r. char_len (meta r)) run) \<and>
      out = [joined c run] \<and> map c_text out = [''a b c'']"
proof -
  let ?uu = "\<lambda>_::nat. ''0a1b2c3d''"
  let ?c = "mk_chunk ?uu ''doc'' None 0 ''a''"
  let ?run = "[mk_chunk ?uu ''doc'' None 1 ''b'', mk_chunk ?uu ''doc'' None 2 ''c'']"
  have em: "emitted_chunks 5 ?uu (split_into_sentences ''a    b    c'') ''doc'' None = Some ([] @ ?c # ?run @ [])"
    by code_simp
  have "aggregate_sentences_to_chunks 5 4 ?uu (split_into_sentences ''a    b    c'') ''doc'' None \<noteq> None"
    by code_simp
  then obtain out where
    out: "aggregate_sentences_to_chunks 5 4 ?uu (split_into_sentences ''a    b    c'') ''doc'' None = Some out"
    by auto
  have mp: "merge_pass 5 4 [] ([] @ [?c]) = [] @ [?c]"
    by (simp add: merge_pass_first)
  have ca: "cascade_ok 5 4 (char_len (meta ?c)) (map (\<lambda>r. char_len (meta r)) ?run)"
    by simp
  from merge_pass_adjacent [OF out] em mp ca
  have "out = merge_pass 5 4 ([] @ [joined ?c ?run]) []"
    by blast
  then have o: "out = [joined ?c ?run]" by simp
  have "map c_text [joined ?c ?run] = [''a b c'']"
    by (simp add: joined_def)
  with out em ca o show ?thesis
    by (intro exI [of _ out] exI [of _ ?c] exI [of _ ?run]) simp
qed

text \<open>
  C6 as stated fails. With \<open>chunk_size_chars = 5\<close> and \<open>min_chunk_chars = 2\<close> the chunks
  \<open>a\<close>, \<open>b\<close>, \<open>c\<close> are emitted, each shorter than the minimum, and absorbing them one
  after the other would keep the length at 3 and then 5; but once \<open>a b\<close> has the length 3
  it is no longer below the minimum and \<open>c\<close> stays a chunk of its own.
\<close>

theorem merge_pass_no_full_cascade:
  "map_option (map (\<lambda>c. (c_text c, char_len (meta c))))
     (emitted_chunks 5 (\<lambda>_. ''0a1b2c3d'') (split_into_sentences ''a    b    c'') ''doc'' None)
     = Some [(''a'', 1), (''b'', 1), (''c'', 1)] \<and>
   map_option (map (\<lambda>c. (c_text c, char_len (meta c))))
     (aggregate_sentences_to_chunks 5 2 (\<lambda>_. ''0a1b2c3d'') (split_into_sentences ''a    b    c'') ''doc'' None)
     = Some [(''a b'', 3), (''c'', 1)]"
  by code_simp

subsection \<open>Chunking the text of a chunk again\<close>

lemma join_sp_Cons_head: "join_sp ((c # q) # qs) = c # join_sp (q # qs)"
  by (cases qs) simp_all

lemma single_sep_tl: "single_sep (c # s) \<Longrightarrow> single_sep s"
  by (cases s) auto

lemma re_split_join:
  "single_sep s \<Longrightarrow> s \<noteq> [] \<Longrightarrow> \<not> isspace (last s) \<Longrightarrow>
   join_sp (re_split s) = s \<and> list_all stripped (tl (re_split s)) \<and>
   hd (re_split s) \<noteq> [] \<and> \<not> isspace (last (hd (re_split s))) \<and> hd (hd (re_split s)) = hd s"
proof (induction s rule: re_split.induct)
  case 1
  then show ?case by simp
next
  case (2 c)
  then show ?case by simp
next
  case (3 c d s)
  show ?case
  proof (cases "sentence_end c \<and> isspace d")
    case True
    with 3(3) have d: "d = CHR '' ''" and s: "s \<noteq> []" "\<not> isspace (hd s)"
      by auto
    from s have dw: "dropWhile isspace s = s" by (cases s) auto
    from 3(3) have ss: "single_sep s" by (auto dest: single_sep_tl)
    from 3(5) s have ls: "\<not> isspace (last s)" by simp
    from 3(1) [OF True] ss s ls dw
    have ih: "join_sp (re_split s) = s" "list_all stripped (tl (re_split s))"
      "hd (re_split s) \<noteq> []" "\<not> isspace (last (hd (re_split s)))" "hd (hd (re_split s)) = hd s"
      by simp_all
    obtain q qs where q: "re_split s = q # qs"
      using re_split_not_Nil [of s] by (cases "re_split s") auto
    with ih s have "stripped q" by (simp add: stripped_def)
    with ih q have all: "list_all stripped (re_split s)" by simp
    have "join_sp ([c] # re_split s) = c # d # s"
      using q ih(1) d by simp
    with True dw all show ?thesis
      by (simp add: sentence_end_not_space)
  next
    case False
    from 3(3) have ss: "single_sep (d # s)" by simp
    from 3(5) have ls: "\<not> isspace (last (d # s))" by simp
    from 3(2) [OF False ss _ ls]
    have ih: "join_sp (re_split (d # s)) = d # s" "list_all stripped (tl (re_split (d # s)))"
      "hd (re_split (d # s)) \<noteq> []" "\<not> isspace (last (hd (re_split (d # s))))"
      by simp_all
    obtain q qs where q: "re_split (d # s) = q # qs"
      using re_split_not_Nil [of "d # s"] by (cases "re_split (d # s)") auto
    have rs: "re_split (c # d # s) = (c # q) # qs"
      by (simp only: re_split.simps(3) if_not_P [OF False] q list.case)
    from ih q show ?thesis
      unfolding rs by (simp add: join_sp_Cons_head)
  qed
qed

lemma re_split_normal:
  assumes "normal_text t"
  shows "join_sp (re_split t) = t" and "list_all stripped (re_split t)"
proof -
  from assms have t: "single_sep t" "t \<noteq> []" "\<not> isspace (last t)" "\<not> isspace (hd t)"
    by (auto simp: normal_text_def stripped_def)
  from re_split_join [OF t(1-3)]
  have j: "join_sp (re_split t) = t" "list_all stripped (tl (re_split t))"
    "hd (re_split t) \<noteq> []" "\<not> isspace (last (hd (re_split t)))" "hd (hd (re_split t)) = hd t"
    by simp_all
  show "join_sp (re_split t) = t" by fact
  obtain q qs where q: "re_split t = q # qs"
    using re_split_not_Nil [of t] by (cases "re_split t") auto
  with j t have "stripped q" by (simp add: stripped_def)
  with j q show "list_all stripped (re_split t)" by simp
qed

lemma stripped_sentences:
  "list_all stripped ps \<Longrightarrow> map strip (filter (\<lambda>s. s \<noteq> [] \<and> strip s \<noteq> []) ps) = ps"
proof (induction ps)
  case Nil
  then show ?case by simp
next
  case (Cons p ps)
  then have "strip p = p" and "p \<noteq> []"
    by (auto simp: strip_stripped stripped_def)
  with Cons show ?case by simp
qed

lemma split_into_sentences_normal:
  "normal_text t \<Longrightarrow> split_into_sentences t = re_split t"
  using re_split_normal(2) [of t]
  by (simp add: split_into_sentences_def normal_text_def strip_stripped stripped_sentences)

lemma agg_loop_fits:
  "sum_list (map length (buffer @ ss)) + length (buffer @ ss) \<le> cs \<Longrightarrow>
   buffer_len = sum_list (map length buffer) + length buffer \<Longrightarrow>
   agg_loop cs uu sid pg ss chunks buffer buffer_len idx =
     Some (chunks, buffer @ ss, sum_list (map length (buffer @ ss)) + length (buffer @ ss), idx)"
proof (induction ss arbitrary: buffer buffer_len)
  case Nil
  then show ?case by simp
next
  case (Cons sent rest)
  from Cons.prems have a: "\<not> cs < length sent" and b: "buffer_len + length sent + 1 \<le> cs"
    by simp_all
  have "agg_loop cs uu sid pg rest chunks (buffer @ [sent]) (buffer_len + (length sent + 1)) idx =
     Some (chunks, (buffer @ [sent]) @ rest,
           sum_list (map length ((buffer @ [sent]) @ rest)) + length ((buffer @ [sent]) @ rest), idx)"
    using Cons.prems by (intro Cons.IH) simp_all
  then show ?case
    by (simp add: agg_loop_append [OF a b])
qed

lemma rechunk_normal:
  assumes "normal_text t" and "length t < cs"
  shows "process_text cs mn uu src_uu t src = Some [mk_chunk uu (source_name src_uu src) None 0 t]"
proof -
  let ?ss = "re_split t"
  let ?sid = "source_name src_uu src"
  have ss: "split_into_sentences t = ?ss"
    by (rule split_into_sentences_normal [OF assms(1)])
  have ne: "?ss \<noteq> []" by (rule re_split_not_Nil)
  have j: "join_sp ?ss = t" by (rule re_split_normal(1) [OF assms(1)])
  from assms(1) have st: "strip t = t" and tne: "t \<noteq> []"
    by (auto simp: normal_text_def strip_stripped stripped_def)
  have "sum_list (map length ?ss) + length ?ss = length (join_sp ?ss) + 1"
    using ne by (cases ?ss) (simp_all add: length_join_sp)
  with j assms(2) have fit: "sum_list (map length ([] @ ?ss)) + length ([] @ ?ss) \<le> cs"
    by simp
  have "agg_loop cs uu ?sid None ?ss [] [] 0 0 =
      Some ([], [] @ ?ss, sum_list (map length ([] @ ?ss)) + length ([] @ ?ss), 0)"
    by (rule agg_loop_fits [OF fit]) simp
  then have "emitted_chunks cs uu ?ss ?sid None = Some [mk_chunk uu ?sid None 0 t]"
    using ne j st tne by (simp add: emitted_chunks_def emit_buffer_def)
  then have "aggregate_sentences_to_chunks cs mn uu ?ss ?sid None = Some [mk_chunk uu ?sid None 0 t]"
    by (simp add: aggregate_sentences_to_chunks_def merge_pass_first)
  with ss ne show ?thesis
    by (simp add: process_text_sentences)
qed

text \<open>
  C3, as amended. The text of a chunk that \<open>process_text\<close> returned, when it is shorter
  than \<open>chunk_size_chars\<close>, is chunked again (with the same sizes, any source name and any
  fresh identifiers) into exactly one chunk with that text.
\<close>

theorem rechunk_idempotent:
  assumes "process_text cs mn uu src_uu tx src = Some out"
    and "c \<in> set out"
    and "length (c_text c) < cs"
  shows "\<exists>c'. process_text cs mn uu2 src_uu2 (c_text c) src2 = Some [c'] \<and>
              c_text c' = c_text c \<and> char_len (meta c') = char_len (meta c)"
proof (cases "split_into_sentences tx = []")
  case True
  with assms(1,2) have c: "c = mk_chunk uu (source_name src_uu src) None 0 tx"
    by (auto simp: process_text_fallback)
  then have "process_text cs mn uu2 src_uu2 (c_text c) src2
      = Some [mk_chunk uu2 (source_name src_uu2 src2) None 0 tx]"
    using True by (simp add: process_text_fallback)
  with c show ?thesis by simp
next
  case False
  with assms(1) have "list_all (wf_chunk cs) out"
    using aggregate_wf [of cs mn uu "split_into_sentences tx" "source_name src_uu src" None out]
      split_into_sentences_ok [of _ tx]
    by (simp add: process_text_sentences)
  with assms(2) have wf: "wf_chunk cs c" by (simp add: list_all_iff)
  then have "normal_text (c_text c)" by (simp add: wf_chunk_def)
  from rechunk_normal [OF this assms(3), of mn uu2 src_uu2 src2] wf show ?thesis
    by (simp add: wf_chunk_def)
qed

theorem rechunk_idempotent_witness:
  "\<exists>out c c'.
      process_text 10 3 (\<lambda>_. ''0a1b2c3d'') ''0a1b2c3d'' ''abcdefghijk. B. Cc.'' None = Some out \<and>
      c \<in> set out \<and> c_text c = ''k. B. Cc.'' \<and> length (c_text c) < 10 \<and>
      process_text 10 3 (\<lambda>_. ''4e5f6a7b'') ''4e5f6a7b'' (c_text c) None = Some [c'] \<and>
      c_text c' = c_text c"
proof -
  have "map_option (map c_text)
          (process_text 10 3 (\<lambda>_. ''0a1b2c3d'') ''0a1b2c3d'' ''abcdefghijk. B. Cc.'' None)
        = Some [''abcdefghij'', ''k. B. Cc.'']"
    by code_simp
  then obtain out c0 c where
    out: "process_text 10 3 (\<lambda>_. ''0a1b2c3d'') ''0a1b2c3d'' ''abcdefghijk. B. Cc.'' None = Some out"
    and o: "out = [c0, c]" and c: "c_text c = ''k. B. Cc.''"
    by auto
  from o have mem: "c \<in> set out" by simp
  from c have len: "length (c_text c) < 10" by simp
  from rechunk_idempotent [OF out mem len, of "\<lambda>_. ''4e5f6a7b''" "''4e5f6a7b''" None]
  show ?thesis using out mem c len by blast
qed

text \<open>
  C3 as stated fails for a chunk whose length is exactly \<open>chunk_size_chars\<close>. With
  \<open>chunk_size_chars = 10\<close> and \<open>min_chunk_chars = 3\<close> the merge pass builds the chunk
  \<open>k. B. Ccc.\<close> of length 10 out of the short rest of a sliced sentence; chunked again,
  its three sentences do not fit the buffer together (the buffer counts a separator for
  the last sentence too), and \<open>k. B.\<close> is too long to absorb the rest.
\<close>

theorem rechunk_splits:
  "map_option (map c_text)
     (process_text 10 3 (\<lambda>_. ''0a1b2c3d'') ''0a1b2c3d'' ''abcdefghijk. B. Ccc.'' None)
     = Some [''abcdefghij'', ''k. B. Ccc.''] \<and>
   length ''k. B. Ccc.'' \<le> 10 \<and>
   map_option (map c_text)
     (process_text 10 3 (\<lambda>_. ''0a1b2c3d'') ''0a1b2c3d'' ''k. B. Ccc.'' None)
     = Some [''k. B.'', ''Ccc.'']"
  by code_simp

section \<open>The local text search\<close>

subsection \<open>The scan as a fold over the scored chunks\<close>

lemma scan_chunks_entries:
  "scan_chunks q terms top_k chunks (heap, tie) =
     (foldl (offer top_k) heap (entries q terms chunks tie),
      tie + length (entries q terms chunks tie))"
proof (induction chunks arbitrary: heap tie)
  case Nil
  then show ?case by simp
next
  case (Cons ch chunks)
  show ?case
  proof (cases "0 < cand_score q terms ch")
    case True
    then have "cand_text ch \<noteq> []" and "\<not> score_of q terms (cand_text ch) \<le> 0"
      by (auto simp: cand_score_def split: if_splits)
    with True show ?thesis
      using Cons.IH [of "heappush heap (cand_score q terms ch, tie, chunk_obj ch)" "Suc tie"]
        Cons.IH [of "heappushpop heap (cand_score q terms ch, tie, chunk_obj ch)" "Suc tie"]
      by (simp add: Let_def cand_text_def [symmetric] offer_def cand_score_def)
  next
    case False
    then have "cand_text ch = [] \<or> score_of q terms (cand_text ch) \<le> 0"
      by (auto simp: cand_score_def split: if_splits)
    with False show ?thesis
      using Cons.IH [of heap tie]
      by (auto simp: Let_def cand_text_def [symmetric])
  qed
qed

lemma scan_chunks_append:
  "scan_chunks q terms top_k (xs @ ys) st =
     scan_chunks q terms top_k ys (scan_chunks q terms top_k xs st)"
proof (induction xs arbitrary: st)
  case Nil
  then show ?case by (cases st) simp
next
  case (Cons x xs)
  obtain heap tie where st: "st = (heap, tie)" by (cases st)
  show ?case
    unfolding st by (simp add: Let_def Cons.IH)
qed

lemma scan_files_candidates:
  "scan_files q terms top_k files st = scan_chunks q terms top_k (candidates files) st"
proof (induction files arbitrary: st)
  case Nil
  then show ?case by (cases st) (simp add: candidates_def)
next
  case (Cons f files)
  show ?case
  proof (cases f)
    case None
    with Cons show ?thesis by (simp add: candidates_def)
  next
    case (Some chunks)
    with Cons show ?thesis
      by (simp add: candidates_def scan_chunks_append)
  qed
qed

lemma entries_append:
  "entries q terms (xs @ ys) tie =
     entries q terms xs tie @ entries q terms ys (tie + length (entries q terms xs tie))"
  by (induction xs arbitrary: tie) simp_all

lemma entries_member:
  "e \<in> set (entries q terms chunks tie) \<Longrightarrow>
   \<exists>ch \<in> set chunks. 0 < cand_score q terms ch \<and> fst e = cand_score q terms ch \<and>
      snd (snd e) = chunk_obj ch \<and> tie \<le> fst (snd e)"
proof (induction chunks arbitrary: tie)
  case Nil
  then show ?case by simp
next
  case (Cons ch chunks)
  show ?case
  proof (cases "0 < cand_score q terms ch")
    case True
    with Cons.prems consider "e = (cand_score q terms ch, tie, chunk_obj ch)"
      | "e \<in> set (entries q terms chunks (Suc tie))"
      by auto
    then show ?thesis
    proof cases
      case 1
      with True show ?thesis by simp
    next
      case 2
      from Cons.IH [OF 2] show ?thesis by auto
    qed
  next
    case False
    with Cons.prems have "e \<in> set (entries q terms chunks tie)" by simp
    from Cons.IH [OF this] show ?thesis by auto
  qed
qed

lemma entries_ties:
  "map (\<lambda>e. fst (snd e)) (entries q terms chunks tie) = [tie..<tie + length (entries q terms chunks tie)]"
proof (induction chunks arbitrary: tie)
  case Nil
  then show ?case by simp
next
  case (Cons ch chunks)
  show ?case
    using Cons.IH [of tie] Cons.IH [of "Suc tie"]
    by (simp add: upt_rec [of tie])
qed

subsection \<open>The heap\<close>

lemma offer_set: "set (offer top_k heap it) \<subseteq> insert it (set heap)"
  by (auto simp: offer_def heappush_def heappushpop_def set_insort_key split: list.splits)

lemma offer_sorted:
  "sorted (map item_key heap) \<Longrightarrow> sorted (map item_key (offer top_k heap it))"
  by (auto simp: offer_def heappush_def heappushpop_def sorted_insort_key split: list.splits)

lemma foldl_offer_set: "set (foldl (offer top_k) heap es) \<subseteq> set heap \<union> set es"
proof (induction es arbitrary: heap)
  case Nil
  then show ?case by simp
next
  case (Cons e es)
  from Cons.IH [of "offer top_k heap e"] offer_set [of top_k heap e]
  show ?case by auto
qed

lemma foldl_offer_sorted:
  "sorted (map item_key heap) \<Longrightarrow> sorted (map item_key (foldl (offer top_k) heap es))"
  by (induction es arbitrary: heap) (simp_all add: offer_sorted)

lemma strict_insort_key:
  assumes "sorted_wrt (<) (map f xs)" and "f x \<notin> f ` set xs"
  shows "sorted_wrt (<) (map f (insort_key f x xs))"
proof -
  from assms(1) have s: "sorted (map f xs)" and d: "distinct (map f xs)"
    by (simp_all add: strict_sorted_iff)
  from d have dx: "distinct xs" and inj: "inj_on f (set xs)"
    by (simp_all add: distinct_map)
  from assms(2) have nx: "x \<notin> set xs" by auto
  from inj assms(2) have "inj_on f (insert x (set xs))" by auto
  with dx nx have "distinct (map f (insort_key f x xs))"
    by (simp add: distinct_map distinct_insort set_insort_key)
  moreover from s have "sorted (map f (insort_key f x xs))"
    by (simp add: sorted_insort_key)
  ultimately show ?thesis by (simp add: strict_sorted_iff)
qed

lemma offer_strict:
  assumes "sorted_wrt (<) (map item_key heap)" and "item_key it \<notin> item_key ` set heap"
  shows "sorted_wrt (<) (map item_key (offer top_k heap it))"
proof (cases "int (length heap) < top_k")
  case True
  with assms show ?thesis
    by (simp add: offer_def heappush_def strict_insort_key)
next
  case False
  show ?thesis
  proof (cases heap)
    case Nil
    with False show ?thesis by (simp add: offer_def heappushpop_def)
  next
    case (Cons least rest)
    with assms have "sorted_wrt (<) (map item_key rest)" and "item_key it \<notin> item_key ` set rest"
      by auto
    then have "sorted_wrt (<) (map item_key (insort_key item_key it rest))"
      by (rule strict_insort_key)
    with False Cons assms(1) show ?thesis
      by (simp add: offer_def heappushpop_def)
  qed
qed

lemma foldl_offer_strict:
  "sorted_wrt (<) (map item_key heap) \<Longrightarrow>
   \<forall>e \<in> set heap. fst (snd e) < tie \<Longrightarrow>
   map (\<lambda>e. fst (snd e)) es = [tie..<tie + length es] \<Longrightarrow>
   sorted_wrt (<) (map item_key (foldl (offer top_k) heap es))"
proof (induction es arbitrary: heap tie)
  case Nil
  then show ?case by simp
next
  case (Cons e es)
  from Cons.prems(3) have e: "fst (snd e) = tie"
    and es: "map (\<lambda>e. fst (snd e)) es = [Suc tie..<Suc tie + length es]"
    by (simp_all add: upt_conv_Cons del: upt_Suc)
  from e Cons.prems(2) have "item_key e \<notin> item_key ` set heap"
    by (auto simp: item_key_def)
  with Cons.prems(1) have s: "sorted_wrt (<) (map item_key (offer top_k heap e))"
    by (rule offer_strict)
  have "\<forall>x \<in> set (offer top_k heap e). fst (snd x) < Suc tie"
    using offer_set [of top_k heap e] Cons.prems(2) e by (auto simp: less_Suc_eq)
  from Cons.IH [OF s this es] show ?case by simp
qed

lemma nlargest_sorted:
  "sorted (map item_key heap) \<Longrightarrow> nlargest (length heap) heap = rev heap"
  by (simp add: nlargest_def sort_key_id_if_sorted)

text \<open>The search, for a query that is not empty after normalisation.\<close>

lemma local_text_search_fold:
  assumes "lower (strip query) \<noteq> []"
  shows "local_text_search True files query top_k =
     map (\<lambda>t. snd (snd t))
       (rev (foldl (offer top_k) []
          (entries (lower (strip query)) (findall_words (lower (strip query))) (candidates files) 0)))"
proof -
  let ?q = "lower (strip query)"
  let ?h = "foldl (offer top_k) [] (entries ?q (findall_words ?q) (candidates files) 0)"
  have sc: "scan_files ?q (findall_words ?q) top_k files ([], 0)
      = (?h, length (entries ?q (findall_words ?q) (candidates files) 0))"
    by (simp add: scan_files_candidates scan_chunks_entries)
  have "sorted (map item_key ?h)"
    by (rule foldl_offer_sorted) simp
  then have "nlargest (length ?h) ?h = rev ?h"
    by (rule nlargest_sorted)
  with assms sc show ?thesis
    by (simp add: local_text_search_def Let_def)
qed

subsection \<open>The score\<close>

lemma foldl_add_count:
  "foldl (\<lambda>score t. score + int (count_sub text t)) a terms
     = a + sum_list (map (\<lambda>t. int (count_sub text t)) terms)"
  by (induction terms arbitrary: a) simp_all

lemma score_of_lexical: "score_of q (findall_words q) text = lexical_score q text"
  by (simp add: score_of_def lexical_score_def foldl_add_count)

lemma cand_score_lexical:
  "cand_score q (findall_words q) ch = (if cand_text ch = [] then 0 else lexical_score q (cand_text ch))"
  by (simp add: cand_score_def score_of_lexical)

lemma scan_chunks_one:
  "scan_chunks q (findall_words q) top_k [ch] (heap, tie) =
     (if cand_text ch \<noteq> [] \<and> 0 < lexical_score q (cand_text ch)
      then (offer top_k heap (lexical_score q (cand_text ch), tie, chunk_obj ch), Suc tie)
      else (heap, tie))"
  by (simp add: scan_chunks_entries cand_score_lexical)

lemma search_hits_scored:
  assumes "h \<in> set (local_text_search dir_exists files query top_k)"
  shows "\<exists>ch \<in> set (candidates files). h = chunk_obj ch \<and> cand_text ch \<noteq> [] \<and>
           0 < lexical_score (lower (strip query)) (cand_text ch)"
proof -
  let ?q = "lower (strip query)"
  let ?es = "entries ?q (findall_words ?q) (candidates files) 0"
  from assms have d: "dir_exists" and q: "?q \<noteq> []"
    by (auto simp: local_text_search_def Let_def split: if_splits)
  with assms have "h \<in> (\<lambda>t. snd (snd t)) ` set (foldl (offer top_k) [] ?es)"
    by (simp add: local_text_search_fold)
  then obtain e where e: "e \<in> set (foldl (offer top_k) [] ?es)" and h: "h = snd (snd e)"
    by auto
  from e foldl_offer_set [of top_k "[]" ?es] have "e \<in> set ?es" by auto
  from entries_member [OF this] obtain ch where ch: "ch \<in> set (candidates files)"
    and sc: "0 < cand_score ?q (findall_words ?q) ch" and o: "snd (snd e) = chunk_obj ch"
    by blast
  from sc have "cand_text ch \<noteq> [] \<and> 0 < lexical_score ?q (cand_text ch)"
    by (simp add: cand_score_lexical split: if_splits)
  with ch h o show ?thesis by auto
qed

subsection \<open>The best chunk comes first\<close>

lemma sorted_key_last:
  "sorted (map f xs) \<Longrightarrow> x \<in> set xs \<Longrightarrow> f x \<le> f (last xs)"
  by (induction xs) (auto split: if_splits)

lemma offer_keeps_best:
  assumes "best \<in> set heap" and "item_key it < item_key best"
  shows "best \<in> set (offer top_k heap it)"
proof (cases "int (length heap) < top_k")
  case True
  with assms show ?thesis by (simp add: offer_def heappush_def set_insort_key)
next
  case False
  from assms(1) obtain least rest where heap: "heap = least # rest" by (cases heap) auto
  show ?thesis
  proof (cases "item_key least < item_key it")
    case True
    with assms(2) have "best \<noteq> least" by auto
    with assms(1) heap have "best \<in> set rest" by simp
    with False True heap show ?thesis
      by (simp add: offer_def heappushpop_def set_insort_key)
  next
    case nl: False
    with False heap assms(1) show ?thesis
      by (simp add: offer_def heappushpop_def)
  qed
qed

lemma offer_takes_best:
  assumes "1 \<le> top_k" and "\<forall>e \<in> set heap. item_key e < item_key best"
  shows "best \<in> set (offer top_k heap best)"
proof (cases "int (length heap) < top_k")
  case True
  then show ?thesis by (simp add: offer_def heappush_def set_insort_key)
next
  case False
  with assms(1) obtain least rest where heap: "heap = least # rest" by (cases heap) auto
  with assms(2) have "item_key least < item_key best" by simp
  with False heap show ?thesis
    by (simp add: offer_def heappushpop_def set_insort_key)
qed

lemma foldl_offer_keeps_best:
  "best \<in> set heap \<Longrightarrow> \<forall>e \<in> set es. item_key e < item_key best \<Longrightarrow>
   best \<in> set (foldl (offer top_k) heap es)"
  by (induction es arbitrary: heap) (simp_all add: offer_keeps_best)

lemma foldl_offer_best_last:
  assumes k: "1 \<le> top_k"
    and before: "\<forall>e \<in> set es1. item_key e < item_key best"
    and after: "\<forall>e \<in> set es2. item_key e < item_key best"
  shows "\<exists>others. foldl (offer top_k) [] (es1 @ best # es2) = others @ [best]"
proof -
  let ?h1 = "foldl (offer top_k) [] es1"
  let ?h = "foldl (offer top_k) [] (es1 @ best # es2)"
  from foldl_offer_set [of top_k "[]" es1] before
  have "\<forall>e \<in> set ?h1. item_key e < item_key best" by auto
  from offer_takes_best [OF k this] have "best \<in> set (offer top_k ?h1 best)" .
  from foldl_offer_keeps_best [OF this after] have mem: "best \<in> set ?h" by simp
  have srt: "sorted (map item_key ?h)" by (rule foldl_offer_sorted) simp
  from mem have ne: "?h \<noteq> []" by auto
  have "last ?h = best"
  proof (rule ccontr)
    assume neq: "last ?h \<noteq> best"
    from ne have "last ?h \<in> set ?h" by simp
    with foldl_offer_set [of top_k "[]" "es1 @ best # es2"] neq
    have "last ?h \<in> set es1 \<union> set es2" by auto
    with before after have "item_key (last ?h) < item_key best" by auto
    with sorted_key_last [OF srt mem] show False by simp
  qed
  with ne have "?h = butlast ?h @ [best]"
    by (metis append_butlast_last_id)
  then show ?thesis by blast
qed

subsection \<open>The claims about the search\<close>

text \<open>
  C9. When the normalised (stripped, lower-cased) query is empty, or the directory of the
  corpus does not exist, the search returns the empty list, whatever the files hold and
  whatever \<open>top_k\<close> is; so it does for the query \<open>""\<close> and \<open>top_k = 5\<close>.
\<close>

theorem no_query_no_hits:
  "(lower (strip query) = [] \<or> \<not> dir_exists \<longrightarrow>
      local_text_search dir_exists files query top_k = []) \<and>
   local_text_search dir_exists files [] 5 = []"
  by (simp add: local_text_search_def strip_def lower_def)

theorem no_query_no_hits_witness:
  "lower (strip '' '') = [] \<and>
   local_text_search True [Some [example_chunk ''a'' ''a fox'']] '' '' 5 = [] \<and>
   local_text_search False [Some [example_chunk ''a'' ''a fox'']] ''fox'' 5 = [] \<and>
   local_text_search True [Some [example_chunk ''a'' ''a fox'']] [] 5 = []"
  using no_query_no_hits [of "'' ''" True "[Some [example_chunk ''a'' ''a fox'']]" 5]
    no_query_no_hits [of "''fox''" False "[Some [example_chunk ''a'' ''a fox'']]" 5]
  by (simp add: strip_def lower_def)

text \<open>
  C1 does not hold of the code. Two chunks with the same score come out with the later
  one first, and with \<open>top_k = 1\<close> the later one is the one that is kept: the heap and
  \<open>nlargest\<close> order the items by \<open>(score, tie)\<close>, and the later chunk has the larger tie.
\<close>

theorem ties_later_first:
  "map h_chunk_id
     (local_text_search True
        [Some [example_chunk ''a'' ''Fox one'', example_chunk ''b'' ''fox two'']] ''fox'' 5)
     = [Some ''b'', Some ''a''] \<and>
   map h_chunk_id
     (local_text_search True
        [Some [example_chunk ''a'' ''Fox one'', example_chunk ''b'' ''fox two'']] ''fox'' 1)
     = [Some ''b'']"
  by code_simp

text \<open>
  C8. The result of the search is determined by the query, \<open>top_k\<close> and the sequence of
  the chunks of the readable files in the order of the scan: two corpora with the same
  sequence give the same hits in the same order. The items in the heap have pairwise
  different keys \<open>(score, tie)\<close>, so that their order never depends on anything else.
\<close>

theorem search_deterministic:
  assumes "candidates files1 = candidates files2"
  shows "local_text_search dir_exists files1 query top_k
           = local_text_search dir_exists files2 query top_k \<and>
         distinct (map item_key
           (fst (scan_files (lower (strip query)) (findall_words (lower (strip query)))
                   top_k files1 ([], 0))))"
proof
  show "local_text_search dir_exists files1 query top_k
           = local_text_search dir_exists files2 query top_k"
  proof (cases "dir_exists \<and> lower (strip query) \<noteq> []")
    case True
    with assms show ?thesis by (simp add: local_text_search_fold)
  next
    case False
    then show ?thesis by (auto simp: local_text_search_def)
  qed
  let ?q = "lower (strip query)"
  let ?es = "entries ?q (findall_words ?q) (candidates files1) 0"
  have "sorted_wrt (<) (map item_key (foldl (offer top_k) [] ?es))"
    by (rule foldl_offer_strict [where tie = 0]) (simp_all add: entries_ties [where tie = 0, simplified])
  then show "distinct (map item_key
           (fst (scan_files ?q (findall_words ?q) top_k files1 ([], 0))))"
    by (simp add: scan_files_candidates scan_chunks_entries strict_sorted_iff)
qed

theorem search_deterministic_witness:
  "candidates [Some [example_chunk ''a'' ''Fox one''], None, Some [example_chunk ''b'' ''fox two'']]
     = candidates [Some [example_chunk ''a'' ''Fox one'', example_chunk ''b'' ''fox two'']] \<and>
   local_text_search True
     [Some [example_chunk ''a'' ''Fox one''], None, Some [example_chunk ''b'' ''fox two'']] ''fox'' 5
     = local_text_search True
         [Some [example_chunk ''a'' ''Fox one'', example_chunk ''b'' ''fox two'']] ''fox'' 5"
proof -
  have c: "candidates [Some [example_chunk ''a'' ''Fox one''], None, Some [example_chunk ''b'' ''fox two'']]
     = candidates [Some [example_chunk ''a'' ''Fox one'', example_chunk ''b'' ''fox two'']]"
    by (simp add: candidates_def)
  from search_deterministic [OF c, of True "''fox''" 5] c show ?thesis by simp
qed

lemma count_sub_Nil: "sub \<noteq> [] \<Longrightarrow> count_sub [] sub = 0"
  by (subst count_sub.simps) simp

text \<open>
  C7, as amended. One step of the scan gives a chunk with text the score of the
  specification and offers it to the heap with the next tie, unless the score is not
  positive; every hit of the result is a chunk with a positive score. For the query
  \<open>brown fox\<close>, a chunk whose lower-cased text has the phrase once and each of the two
  words once has the score 12, and it is the first hit when \<open>top_k \<ge> 1\<close> and every other
  chunk scores less than 12.
\<close>

theorem lexical_score_rank:
  "(\<forall>ch heap tie.
      scan_chunks (lower (strip query)) (findall_words (lower (strip query))) top_k [ch] (heap, tie) =
        (if cand_text ch \<noteq> [] \<and> 0 < lexical_score (lower (strip query)) (cand_text ch)
         then (offer top_k heap (lexical_score (lower (strip query)) (cand_text ch), tie, chunk_obj ch),
               Suc tie)
         else (heap, tie))) \<and>
   (\<forall>h \<in> set (local_text_search dir_exists files query top_k).
      \<exists>ch \<in> set (candidates files). h = chunk_obj ch \<and> cand_text ch \<noteq> [] \<and>
         0 < lexical_score (lower (strip query)) (cand_text ch)) \<and>
   (dir_exists \<and> 1 \<le> top_k \<and> lower (strip query) = ''brown fox'' \<and>
    candidates files = before @ x # after \<and>
    count_sub (cand_text x) ''brown fox'' = 1 \<and>
    count_sub (cand_text x) ''brown'' = 1 \<and> count_sub (cand_text x) ''fox'' = 1 \<and>
    (\<forall>ch \<in> set (before @ after). lexical_score ''brown fox'' (cand_text ch) < 12)
    \<longrightarrow> lexical_score ''brown fox'' (cand_text x) = 12 \<and>
        (\<exists>rest. local_text_search dir_exists files query top_k = chunk_obj x # rest))"
proof (intro conjI allI ballI impI)
  fix ch heap tie
  show "scan_chunks (lower (strip query)) (findall_words (lower (strip query))) top_k [ch] (heap, tie) =
        (if cand_text ch \<noteq> [] \<and> 0 < lexical_score (lower (strip query)) (cand_text ch)
         then (offer top_k heap (lexical_score (lower (strip query)) (cand_text ch), tie, chunk_obj ch),
               Suc tie)
         else (heap, tie))"
    by (rule scan_chunks_one)
next
  fix h
  assume "h \<in> set (local_text_search dir_exists files query top_k)"
  then show "\<exists>ch \<in> set (candidates files). h = chunk_obj ch \<and> cand_text ch \<noteq> [] \<and>
         0 < lexical_score (lower (strip query)) (cand_text ch)"
    by (rule search_hits_scored)
next
  assume h: "dir_exists \<and> 1 \<le> top_k \<and> lower (strip query) = ''brown fox'' \<and>
    candidates files = before @ x # after \<and>
    count_sub (cand_text x) ''brown fox'' = 1 \<and>
    count_sub (cand_text x) ''brown'' = 1 \<and> count_sub (cand_text x) ''fox'' = 1 \<and>
    (\<forall>ch \<in> set (before @ after). lexical_score ''brown fox'' (cand_text ch) < 12)"
  have w: "findall_words ''brown fox'' = [''brown'', ''fox'']"
    by code_simp
  from h w show sx: "lexical_score ''brown fox'' (cand_text x) = 12"
    by (simp add: lexical_score_def)
  let ?q = "''brown fox''"
  let ?terms = "findall_words ?q"
  let ?es1 = "entries ?q ?terms before 0"
  let ?best = "(12::int, length ?es1, chunk_obj x)"
  let ?es2 = "entries ?q ?terms after (Suc (length ?es1))"
  from h have tx: "cand_text x \<noteq> []"
    using count_sub_Nil [of "''fox''"] by auto
  with sx have cx: "cand_score ?q ?terms x = 12"
    by (simp add: cand_score_lexical)
  have es: "entries ?q ?terms (before @ x # after) 0 = ?es1 @ ?best # ?es2"
    by (simp add: entries_append cx)
  have low: "item_key e < item_key ?best"
    if "e \<in> set (entries ?q ?terms chunks tie)" and "set chunks \<subseteq> set (before @ after)"
    for e chunks tie
  proof -
    from entries_member [OF that(1)] obtain ch where "ch \<in> set chunks"
      and "0 < cand_score ?q ?terms ch" and "fst e = cand_score ?q ?terms ch"
      by blast
    with that(2) h have "fst e < 12"
      by (auto simp: cand_score_lexical split: if_splits)
    then show ?thesis by (simp add: item_key_def less_prod_def)
  qed
  have "\<forall>e \<in> set ?es1. item_key e < item_key ?best"
    using low [of _ before 0] by auto
  moreover have "\<forall>e \<in> set ?es2. item_key e < item_key ?best"
    using low [of _ after "Suc (length ?es1)"] by auto
  moreover from h have "1 \<le> top_k" by simp
  ultimately obtain others where "foldl (offer top_k) [] (?es1 @ ?best # ?es2) = others @ [?best]"
    using foldl_offer_best_last [of top_k ?es1 ?best ?es2] by blast
  with h es show "\<exists>rest. local_text_search dir_exists files query top_k = chunk_obj x # rest"
    by (simp add: local_text_search_fold)
qed

theorem lexical_score_rank_witness:
  "lower (strip '' Brown Fox '') = ''brown fox'' \<and>
   lexical_score ''brown fox'' (cand_text (example_chunk ''a'' ''A quick brown fox.'')) = 12 \<and>
   lexical_score ''brown fox'' (cand_text (example_chunk ''b'' ''Foxes and a fox'')) < 12 \<and>
   (\<exists>rest. local_text_search True
        [Some [example_chunk ''a'' ''A quick brown fox.'', example_chunk ''b'' ''Foxes and a fox'']]
        '' Brown Fox '' 5
      = chunk_obj (example_chunk ''a'' ''A quick brown fox.'') # rest)"
proof -
  let ?a = "example_chunk ''a'' ''A quick brown fox.''"
  let ?b = "example_chunk ''b'' ''Foxes and a fox''"
  have q: "lower (strip '' Brown Fox '') = ''brown fox''"
    by code_simp
  have c: "candidates [Some [?a, ?b]] = [] @ ?a # [?b]"
    by (simp add: candidates_def)
  have n: "count_sub (cand_text ?a) ''brown fox'' = 1"
    "count_sub (cand_text ?a) ''brown'' = 1" "count_sub (cand_text ?a) ''fox'' = 1"
    by code_simp+
  have b: "lexical_score ''brown fox'' (cand_text ?b) < 12"
    by code_simp
  then have o: "\<forall>ch \<in> set ([] @ [?b]). lexical_score ''brown fox'' (cand_text ch) < 12"
    by simp
  from lexical_score_rank [of "'' Brown Fox ''" 5 True "[Some [?a, ?b]]" "[]" ?a "[?b]"] q c n o
  have "lexical_score ''brown fox'' (cand_text ?a) = 12 \<and>
        (\<exists>rest. local_text_search True [Some [?a, ?b]] '' Brown Fox '' 5 = chunk_obj ?a # rest)"
    by simp
  with q b show ?thesis by simp
qed

text \<open>
  C7 as stated fails. Of the two chunks below only \<open>x\<close> has the phrase \<open>brown fox\<close> once
  and each of the words once, and its score is 12; \<open>y\<close> has no \<open>brown\<close> but thirteen
  times \<open>fox\<close>, scores 13 and is the first hit.
\<close>

theorem best_phrase_not_first:
  "count_sub (cand_text (example_chunk ''x'' ''the quick brown fox'')) ''brown fox'' = 1 \<and>
   count_sub (cand_text (example_chunk ''x'' ''the quick brown fox'')) ''brown'' = 1 \<and>
   count_sub (cand_text (example_chunk ''x'' ''the quick brown fox'')) ''fox'' = 1 \<and>
   count_sub (cand_text (example_chunk ''y'' ''fox fox fox fox fox fox fox fox fox fox fox fox fox''))
     ''brown'' = 0 \<and>
   map h_chunk_id
     (local_text_search True
        [Some [example_chunk ''x'' ''the quick brown fox'',
               example_chunk ''y'' ''fox fox fox fox fox fox fox fox fox fox fox fox fox'']]
        ''brown fox'' 5)
     = [Some ''y'', Some ''x'']"
  by code_simp

end
